theory Spec2Isabelle
  imports Main
begin

section \<open>The LLVM IR consumed by the back-end\<close>

text \<open>
  A non-null \<^verbatim>\<open>BasicBlock*\<close> is a number; a possibly null one is a \<open>block option\<close>
  (\<open>None\<close> is \<^verbatim>\<open>nullptr\<close>). An \<^verbatim>\<open>llvm::Value*\<close> is a number as well; an instruction
  is a value together with what the back-end can observe of it by \<^verbatim>\<open>isa\<close>/\<^verbatim>\<open>dyn_cast\<close>.
\<close>

type_synonym block = nat
type_synonym irvalue = nat

datatype inst_kind =
    Plain
  | Ret
  | Unreachable
  | Br block
  | CondBr irvalue block block
  | Switch irvalue block "block list"

datatype instruction = Inst irvalue inst_kind

fun inst_value :: "instruction \<Rightarrow> irvalue" where
  "inst_value (Inst v k) = v"

fun kind_of :: "instruction \<Rightarrow> inst_kind" where
  "kind_of (Inst v k) = k"

fun isTerminator :: "inst_kind \<Rightarrow> bool" where
  "isTerminator Plain = False"
| "isTerminator k = True"

fun isBranchInst :: "inst_kind \<Rightarrow> bool" where
  "isBranchInst (Br t) = True"
| "isBranchInst (CondBr c t e) = True"
| "isBranchInst k = False"

fun isSwitchInst :: "inst_kind \<Rightarrow> bool" where
  "isSwitchInst (Switch c d cs) = True"
| "isSwitchInst k = False"

fun kind_successors :: "inst_kind \<Rightarrow> block list" where
  "kind_successors (Br t) = [t]"
| "kind_successors (CondBr c t e) = [t, e]"
| "kind_successors (Switch c d cs) = d # cs"
| "kind_successors k = []"

text \<open>
  A function is its list of basic blocks, the entry block first, each with its
  instructions in order. \<open>getTerminator\<close> is the last instruction when that is a
  terminator, and \<open>successors\<close> are the terminator's targets in operand order.
\<close>

record func =
  fn_id :: nat
  fn_blocks :: "(block \<times> instruction list) list"

definition blockInsts :: "func \<Rightarrow> block \<Rightarrow> instruction list" where
  "blockInsts fn bb = (case map_of (fn_blocks fn) bb of None \<Rightarrow> [] | Some insts \<Rightarrow> insts)"

definition insts_terminator :: "instruction list \<Rightarrow> inst_kind option" where
  "insts_terminator is =
     (if is = [] then None
      else if isTerminator (kind_of (last is)) then Some (kind_of (last is)) else None)"

definition getTerminator :: "func \<Rightarrow> block \<Rightarrow> inst_kind option" where
  "getTerminator fn bb = insts_terminator (blockInsts fn bb)"

definition insts_successors :: "instruction list \<Rightarrow> block list" where
  "insts_successors is = (case insts_terminator is of None \<Rightarrow> [] | Some k \<Rightarrow> kind_successors k)"

definition successors :: "func \<Rightarrow> block \<Rightarrow> block list" where
  "successors fn bb = insts_successors (blockInsts fn bb)"

definition fn_targets :: "func \<Rightarrow> block set" where
  "fn_targets fn = (\<Union>p \<in> set (fn_blocks fn). set (insts_successors (snd p)))"

text \<open>
  The analyses LLVM supplies for the current function. \<open>dominates a b\<close> is
  \<^verbatim>\<open>domTree->dominates(a, b)\<close> (the second argument may be null in the driver),
  \<open>postDominates a b\<close> is \<^verbatim>\<open>postDomTree->dominates(a, b)\<close>. A \<^verbatim>\<open>DomTreeNode*\<close> of the
  post-dominator tree is \<open>None\<close> when null and \<open>Some k\<close> otherwise, \<open>k\<close> being what
  \<^verbatim>\<open>getBlock()\<close> returns for the node (\<open>None\<close> for the virtual root). \<open>pdt_hasNode\<close> says
  which blocks have a node, \<open>pdt_getIDom\<close> is \<^verbatim>\<open>getIDom\<close>, and \<open>post_order\<close> lists the
  blocks as \<^verbatim>\<open>post_order(&fn.getEntryBlock())\<close> yields them.
\<close>

record analyses =
  dominates :: "block \<Rightarrow> block option \<Rightarrow> bool"
  postDominates :: "block \<Rightarrow> block \<Rightarrow> bool"
  pdt_hasNode :: "block option \<Rightarrow> bool"
  pdt_getIDom :: "block option \<Rightarrow> block option option"
  post_order :: "block list"

definition pdt_getNode :: "analyses \<Rightarrow> block option \<Rightarrow> block option option" where
  "pdt_getNode an b = (if pdt_hasNode an b then Some b else None)"

section \<open>The region predicate\<close>

text \<open>
  \<^verbatim>\<open>AstBackEnd::isRegion\<close>. \<open>toVisit\<close> and \<open>visited\<close> are unordered sets of block
  pointers; \<open>visited\<close> may hold the null pointer. \<^verbatim>\<open>toVisit.begin()\<close> yields an element
  the container chooses: the choice is the parameter \<open>pick\<close>, which selects a position of
  the list that represents \<open>toVisit\<close>.
\<close>

definition region_ok :: "analyses \<Rightarrow> block \<Rightarrow> block option \<Rightarrow> block \<Rightarrow> bool" where
  "region_ok an entry exit bb =
     (dominates an entry (Some bb) \<and> (case exit of None \<Rightarrow> True | Some x \<Rightarrow> postDominates an x bb))"

fun insert_unvisited :: "block option set \<Rightarrow> block list \<Rightarrow> block list \<Rightarrow> block list" where
  "insert_unvisited visited [] toVisit = toVisit"
| "insert_unvisited visited (succ # rest) toVisit =
     insert_unvisited visited rest
       (if Some succ \<notin> visited then List.insert succ toVisit else toVisit)"

lemma set_insert_unvisited:
  "set (insert_unvisited visited succs toVisit) =
     set toVisit \<union> {s \<in> set succs. Some s \<notin> visited}"
  by (induction succs arbitrary: toVisit) auto

lemma successors_in_targets: "set (successors fn bb) \<subseteq> fn_targets fn"
proof (cases "map_of (fn_blocks fn) bb")
  case None
  then show ?thesis
    by (simp add: successors_def blockInsts_def insts_successors_def insts_terminator_def)
next
  case (Some insts)
  then have "(bb, insts) \<in> set (fn_blocks fn)" by (rule map_of_SomeD)
  then show ?thesis using Some
    by (force simp: successors_def blockInsts_def fn_targets_def)
qed

function isRegion_loop ::
  "(block list \<Rightarrow> nat) \<Rightarrow> func \<Rightarrow> analyses \<Rightarrow> block \<Rightarrow> block option \<Rightarrow>
   block list \<Rightarrow> block option set \<Rightarrow> bool" where
  "isRegion_loop pick fn an entry exit toVisit visited =
     (if toVisit = [] then True
      else let bb = toVisit ! (pick toVisit mod length toVisit) in
        if region_ok an entry exit bb
        then isRegion_loop pick fn an entry exit
               (insert_unvisited (insert (Some bb) visited) (successors fn bb) (removeAll bb toVisit))
               (insert (Some bb) visited)
        else False)"
  by pat_completeness auto

lemma card_pair_decrease:
  assumes "finite A" "finite B" "x \<in> A \<union> B" "A' \<subseteq> A - {x}" "B' \<subseteq> B - {x}"
  shows "card A' + card B' < card A + card B"
proof -
  have a: "card A' \<le> card (A - {x})" using assms(1,4) by (simp add: card_mono)
  have b: "card B' \<le> card (B - {x})" using assms(2,5) by (simp add: card_mono)
  have a': "card (A - {x}) \<le> card A" using assms(1) by (simp add: card_Diff_subset_Int card_mono)
  have b': "card (B - {x}) \<le> card B" using assms(2) by (simp add: card_Diff_subset_Int card_mono)
  show ?thesis
  proof (cases "x \<in> A")
    case True
    then have "card (A - {x}) < card A" using assms(1) by (rule_tac card_Diff1_less)
    then show ?thesis using a b b' by linarith
  next
    case False
    then have "x \<in> B" using assms(3) by simp
    then have "card (B - {x}) < card B" using assms(2) by (rule_tac card_Diff1_less)
    then show ?thesis using a b a' by linarith
  qed
qed

lemma isRegion_measure:
  assumes bb: "bb \<in> set toVisit"
  shows "card (Some ` (fn_targets fn \<union>
            set (insert_unvisited (insert (Some bb) visited) (successors fn bb) (removeAll bb toVisit)))
            - insert (Some bb) visited)
         + card (Some ` set (insert_unvisited (insert (Some bb) visited) (successors fn bb)
                   (removeAll bb toVisit)) \<inter> insert (Some bb) visited)
       < card (Some ` (fn_targets fn \<union> set toVisit) - visited)
         + card (Some ` set toVisit \<inter> visited)"
proof (rule card_pair_decrease [where x = "Some bb"])
  show "finite (Some ` (fn_targets fn \<union> set toVisit) - visited)"
    by (simp add: fn_targets_def)
  show "finite (Some ` set toVisit \<inter> visited)" by simp
  show "Some bb \<in> (Some ` (fn_targets fn \<union> set toVisit) - visited) \<union> (Some ` set toVisit \<inter> visited)"
    using bb by auto
  show "Some ` (fn_targets fn \<union>
            set (insert_unvisited (insert (Some bb) visited) (successors fn bb) (removeAll bb toVisit)))
            - insert (Some bb) visited
        \<subseteq> (Some ` (fn_targets fn \<union> set toVisit) - visited) - {Some bb}"
    using successors_in_targets [of fn bb] by (auto simp: set_insert_unvisited)
  show "Some ` set (insert_unvisited (insert (Some bb) visited) (successors fn bb)
                   (removeAll bb toVisit)) \<inter> insert (Some bb) visited
        \<subseteq> (Some ` set toVisit \<inter> visited) - {Some bb}"
    by (auto simp: set_insert_unvisited)
qed

lemma pick_in_set: "toVisit \<noteq> [] \<Longrightarrow> toVisit ! (pick toVisit mod length toVisit) \<in> set toVisit"
  by simp

termination isRegion_loop
proof (relation "measure (\<lambda>(pick, fn, an, entry, exit, toVisit, visited).
          card (Some ` (fn_targets fn \<union> set toVisit) - visited)
          + card (Some ` set toVisit \<inter> visited))", goal_cases)
  case 1
  show ?case by simp
next
  case (2 pick fn an entry exit toVisit visited bb)
  have "bb \<in> set toVisit"
    unfolding \<open>bb = toVisit ! (pick toVisit mod length toVisit)\<close>
    using \<open>toVisit \<noteq> []\<close> by (rule pick_in_set)
  from isRegion_measure [OF this, of fn visited] show ?case
    by (simp only: in_measure prod.case)
qed

declare isRegion_loop.simps [simp del]

lemma isRegion_loop_Nil: "isRegion_loop pick fn an entry exit [] visited = True"
  by (subst isRegion_loop.simps) simp

lemma isRegion_loop_step:
  "toVisit \<noteq> [] \<Longrightarrow>
   isRegion_loop pick fn an entry exit toVisit visited =
     (if region_ok an entry exit (toVisit ! (pick toVisit mod length toVisit))
      then isRegion_loop pick fn an entry exit
             (insert_unvisited (insert (Some (toVisit ! (pick toVisit mod length toVisit))) visited)
                (successors fn (toVisit ! (pick toVisit mod length toVisit)))
                (removeAll (toVisit ! (pick toVisit mod length toVisit)) toVisit))
             (insert (Some (toVisit ! (pick toVisit mod length toVisit))) visited)
      else False)"
  by (subst isRegion_loop.simps) (simp add: Let_def)

lemma isRegion_loop_code [code]:
  "isRegion_loop pick fn an entry exit toVisit visited =
     (if toVisit = [] then True
      else if region_ok an entry exit (toVisit ! (pick toVisit mod length toVisit))
      then isRegion_loop pick fn an entry exit
             (insert_unvisited (insert (Some (toVisit ! (pick toVisit mod length toVisit))) visited)
                (successors fn (toVisit ! (pick toVisit mod length toVisit)))
                (removeAll (toVisit ! (pick toVisit mod length toVisit)) toVisit))
             (insert (Some (toVisit ! (pick toVisit mod length toVisit))) visited)
      else False)"
  by (subst isRegion_loop.simps) (simp add: Let_def)

definition isRegion ::
  "(block list \<Rightarrow> nat) \<Rightarrow> func \<Rightarrow> analyses \<Rightarrow> block \<Rightarrow> block option \<Rightarrow> bool" where
  "isRegion pick fn an entry exit = isRegion_loop pick fn an entry exit [entry] {exit}"

text \<open>
  The blocks reachable from \<open>entry\<close> without crossing \<open>exit\<close>: \<open>entry\<close> itself, and
  every successor other than \<open>exit\<close> of a block already reached.
\<close>

inductive_set region_blocks :: "func \<Rightarrow> block \<Rightarrow> block option \<Rightarrow> block set"
  for fn :: func and entry :: block and exit :: "block option" where
  region_entry: "entry \<in> region_blocks fn entry exit"
| region_succ: "b \<in> region_blocks fn entry exit \<Longrightarrow> s \<in> set (successors fn b) \<Longrightarrow>
     Some s \<noteq> exit \<Longrightarrow> s \<in> region_blocks fn entry exit"

definition region_inv ::
  "func \<Rightarrow> analyses \<Rightarrow> block \<Rightarrow> block option \<Rightarrow> block set \<Rightarrow> block list \<Rightarrow> block option set \<Rightarrow> bool" where
  "region_inv fn an entry exit P toVisit visited =
     (entry \<in> P \<union> set toVisit \<and>
      P \<union> set toVisit \<subseteq> region_blocks fn entry exit \<and>
      (\<forall>b \<in> P. region_ok an entry exit b) \<and>
      (\<forall>b \<in> P. \<forall>s \<in> set (successors fn b). Some s \<noteq> exit \<longrightarrow> s \<in> P \<or> s \<in> set toVisit) \<and>
      visited = insert exit (Some ` P))"

definition diamond :: func where
  "diamond = \<lparr>fn_id = 0, fn_blocks =
     [(0, [Inst 10 Plain, Inst 11 (CondBr 10 2 3)]),
      (2, [Inst 12 Plain, Inst 13 (Br 4)]),
      (3, [Inst 14 (Br 4)]),
      (4, [Inst 15 Ret])]\<rparr>"

definition diamond_an :: analyses where
  "diamond_an = \<lparr>dominates = (\<lambda>a b. a = 0 \<or> b = Some a \<or> b = None),
     postDominates = (\<lambda>a b. a = 4 \<or> a = b),
     pdt_hasNode = (\<lambda>b. b \<in> {Some 0, Some 2, Some 3, Some 4}),
     pdt_getIDom = (\<lambda>b. if b \<in> {Some 0, Some 2, Some 3} then Some (Some 4) else None),
     post_order = [4, 2, 3, 0]\<rparr>"

section \<open>The AST\<close>

text \<open>
  Modelled from the spec: the declarations of \<^verbatim>\<open>Expression\<close>, \<^verbatim>\<open>Statement\<close> and their
  subclasses (\<^verbatim>\<open>ast_nodes.h\<close>) are not among the sources. An expression is a \<open>Value\<close>
  (a handle to an IR value), a \<open>UnaryNot\<close> or a \<open>Binary\<close> node; a statement is an
  \<open>Expression\<close>, a \<open>Sequence\<close>, an \<open>IfElse\<close> with an optional else branch, a \<open>Loop\<close>
  with an optional condition and a position, or the \<open>Break\<close> sentinel, of which there
  is one object, so that comparing a pointer with \<^verbatim>\<open>BreakNode::breakNode\<close> is comparing
  with \<open>Break\<close>. A loop is endless when its position is \<open>Endless\<close>.

  The simplification passes update statements in place and return pointers. The model
  takes the statement as a tree and returns the tree the returned pointer designates;
  this is the same thing when no statement object has two parents.
\<close>

datatype binop = ShortCircuitAnd | ShortCircuitOr

datatype expr = Value irvalue | UnaryNot expr | Binary binop expr expr

datatype position = Endless | PreTested | PostTested

datatype stmt =
    Expression expr
  | Sequence "stmt list"
  | IfElse expr stmt "stmt option"
  | Loop "expr option" stmt position
  | Break

section \<open>AST simplification\<close>

text \<open>\<^verbatim>\<open>logicalNegate\<close>: a negation is undone rather than doubled.\<close>

fun logicalNegate :: "expr \<Rightarrow> expr" where
  "logicalNegate (UnaryNot operand) = operand"
| "logicalNegate toNegate = UnaryNot toNegate"

text \<open>
  The \<^verbatim>\<open>while\<close> loop at the head of \<^verbatim>\<open>recursivelySimplifyIfElse\<close>, entered when the
  else branch exists: each iteration removes one negation and swaps the branches.
\<close>

fun strip_negations :: "expr \<Rightarrow> stmt \<Rightarrow> stmt \<Rightarrow> expr \<times> stmt \<times> stmt" where
  "strip_negations (UnaryNot operand) ifBody elseBody = strip_negations operand elseBody ifBody"
| "strip_negations condition ifBody elseBody = (condition, ifBody, elseBody)"

lemma strip_negations_bodies:
  "strip_negations c a b = (c', a', b') \<Longrightarrow> (a' = a \<and> b' = b) \<or> (a' = b \<and> b' = a)"
  by (induction c a b rule: strip_negations.induct) auto

fun isEndless :: "position \<Rightarrow> bool" where
  "isEndless Endless = True"
| "isEndless p = False"

text \<open>
  The \<^verbatim>\<open>while (true)\<close> loop of \<^verbatim>\<open>recursivelySimplifyLoop\<close>, run on the loop's fields after
  the body has been simplified. \<^verbatim>\<open>assert(lastIndex > 0)\<close> fails on an empty sequence: the
  result is \<open>None\<close>. The \<^verbatim>\<open>continue\<close> after the do-while rewrite is the recursive call.
\<close>

function loopPatterns :: "expr option \<Rightarrow> stmt \<Rightarrow> position \<Rightarrow> stmt option" where
  "loopPatterns condition loopBody pos =
     (if isEndless pos then
        (case loopBody of
           Sequence statements \<Rightarrow>
             (if statements = [] then None
              else (case last statements of
                      IfElse c ifBody elseBody \<Rightarrow>
                        (if ifBody = Break
                         then loopPatterns (Some (logicalNegate c)) (Sequence (butlast statements)) PostTested
                         else Some (Loop condition loopBody pos))
                    | other \<Rightarrow> Some (Loop condition loopBody pos)))
         | other \<Rightarrow> Some (Loop condition loopBody pos))
      else Some (Loop condition loopBody pos))"
  by pat_completeness auto
termination
  by (relation "measure (\<lambda>(c, b, p). if isEndless p then 1 else 0)") auto

declare loopPatterns.simps [simp del]

text \<open>
  \<^verbatim>\<open>recursivelySimplifyStatement\<close> with its three helpers. \<open>simplifyStatements\<close> is the
  \<^verbatim>\<open>for\<close> loop of \<^verbatim>\<open>recursivelySimplifySequence\<close>, which appends to the new sequence
  the statements of a child that simplified to a sequence, and the child itself
  otherwise.
\<close>

fun flattened :: "stmt \<Rightarrow> stmt list" where
  "flattened (Sequence statements) = statements"
| "flattened other = [other]"

function recursivelySimplifyStatement :: "stmt \<Rightarrow> stmt option"
  and simplifyStatements :: "stmt list \<Rightarrow> stmt list option" where
  "recursivelySimplifyStatement (Sequence statements) =
     (case simplifyStatements statements of
        None \<Rightarrow> None
      | Some simplified \<Rightarrow>
          Some (if length simplified = 1 then simplified ! 0 else Sequence simplified))"
| "recursivelySimplifyStatement (IfElse condition ifBody None) =
     (case recursivelySimplifyStatement ifBody of
        None \<Rightarrow> None
      | Some ifBody' \<Rightarrow>
          (case ifBody' of
             IfElse childCond childIf None \<Rightarrow>
               Some (IfElse (Binary ShortCircuitAnd condition childCond) childIf None)
           | other \<Rightarrow> Some (IfElse condition ifBody' None)))"
| "recursivelySimplifyStatement (IfElse condition ifBody (Some elseBody)) =
     (case strip_negations condition ifBody elseBody of
        (c, a, b) \<Rightarrow>
          (case recursivelySimplifyStatement a of
             None \<Rightarrow> None
           | Some a' \<Rightarrow>
               (case recursivelySimplifyStatement b of
                  None \<Rightarrow> None
                | Some b' \<Rightarrow> Some (IfElse c a' (Some b')))))"
| "recursivelySimplifyStatement (Loop condition loopBody pos) =
     (case recursivelySimplifyStatement loopBody of
        None \<Rightarrow> None
      | Some loopBody' \<Rightarrow> loopPatterns condition loopBody' pos)"
| "recursivelySimplifyStatement (Expression e) = Some (Expression e)"
| "recursivelySimplifyStatement Break = Some Break"
| "simplifyStatements [] = Some []"
| "simplifyStatements (sub # rest) =
     (case recursivelySimplifyStatement sub of
        None \<Rightarrow> None
      | Some asSimplified \<Rightarrow>
          (case simplifyStatements rest of
             None \<Rightarrow> None
           | Some simplified \<Rightarrow> Some (flattened asSimplified @ simplified)))"
  by pat_completeness auto
termination
  apply (relation "measure (\<lambda>x. case x of Inl s \<Rightarrow> size s | Inr ss \<Rightarrow> size_list size ss)")
  apply (auto dest: strip_negations_bodies [OF sym])
  done

text \<open>Shapes of statements, used to state the properties of the simplifier.\<close>

fun isUnaryNot :: "expr \<Rightarrow> bool" where
  "isUnaryNot (UnaryNot operand) = True"
| "isUnaryNot other = False"

fun ifelse_normal :: "stmt \<Rightarrow> bool" where
  "ifelse_normal (Expression e) = True"
| "ifelse_normal Break = True"
| "ifelse_normal (Sequence statements) = (\<forall>s \<in> set statements. ifelse_normal s)"
| "ifelse_normal (IfElse condition ifBody None) = ifelse_normal ifBody"
| "ifelse_normal (IfElse condition ifBody (Some elseBody)) =
     (\<not> isUnaryNot condition \<and> ifelse_normal ifBody \<and> ifelse_normal elseBody)"
| "ifelse_normal (Loop condition loopBody pos) = ifelse_normal loopBody"

fun isSequence :: "stmt \<Rightarrow> bool" where
  "isSequence (Sequence statements) = True"
| "isSequence other = False"

fun isIfWithoutElse :: "stmt \<Rightarrow> bool" where
  "isIfWithoutElse (IfElse condition ifBody None) = True"
| "isIfWithoutElse other = False"

fun isBreakIf :: "stmt \<Rightarrow> bool" where
  "isBreakIf (IfElse condition ifBody elseBody) = (ifBody = Break)"
| "isBreakIf other = False"

fun simplified_form :: "stmt \<Rightarrow> bool" where
  "simplified_form (Expression e) = True"
| "simplified_form Break = True"
| "simplified_form (Sequence statements) =
     (length statements \<noteq> 1 \<and> (\<forall>s \<in> set statements. simplified_form s \<and> \<not> isSequence s))"
| "simplified_form (IfElse condition ifBody None) =
     (simplified_form ifBody \<and> \<not> isIfWithoutElse ifBody)"
| "simplified_form (IfElse condition ifBody (Some elseBody)) =
     (\<not> isUnaryNot condition \<and> simplified_form ifBody \<and> simplified_form elseBody)"
| "simplified_form (Loop condition loopBody pos) =
     (case loopBody of
        Sequence statements \<Rightarrow>
          (\<forall>s \<in> set statements. simplified_form s \<and> \<not> isSequence s) \<and>
          (isEndless pos \<longrightarrow> length statements \<noteq> 1 \<and> statements \<noteq> [] \<and> \<not> isBreakIf (last statements))
      | other \<Rightarrow> simplified_form loopBody)"

fun isSingletonSequence :: "stmt \<Rightarrow> bool" where
  "isSingletonSequence (Sequence statements) = (length statements = 1)"
| "isSingletonSequence other = False"

fun no_singleton_loop_body :: "stmt \<Rightarrow> bool" where
  "no_singleton_loop_body (Expression e) = True"
| "no_singleton_loop_body Break = True"
| "no_singleton_loop_body (Sequence statements) = (\<forall>s \<in> set statements. no_singleton_loop_body s)"
| "no_singleton_loop_body (IfElse condition ifBody None) = no_singleton_loop_body ifBody"
| "no_singleton_loop_body (IfElse condition ifBody (Some elseBody)) =
     (no_singleton_loop_body ifBody \<and> no_singleton_loop_body elseBody)"
| "no_singleton_loop_body (Loop condition loopBody pos) =
     (\<not> isSingletonSequence loopBody \<and> no_singleton_loop_body loopBody)"

fun break_free :: "stmt \<Rightarrow> bool" where
  "break_free (Expression e) = True"
| "break_free Break = False"
| "break_free (Sequence statements) = (\<forall>s \<in> set statements. break_free s)"
| "break_free (IfElse condition ifBody None) = break_free ifBody"
| "break_free (IfElse condition ifBody (Some elseBody)) = (break_free ifBody \<and> break_free elseBody)"
| "break_free (Loop condition loopBody pos) = break_free loopBody"

section \<open>The arena and the AST grapher\<close>

text \<open>
  A \<^verbatim>\<open>Statement*\<close> that the grapher registers is an address in the arena: the position
  of the statement in \<open>pool_stmts\<close>, where \<^verbatim>\<open>pool.allocate\<close> puts each new object after
  the ones it already holds. The arena holds the statements that can be registered: the
  sequence of a block, the expression statements of a block, and the statement of a
  region. A statement is a tree, and the arena keeps a registered statement as it is
  when it is registered: the code changes such an object in place only once it is a part
  of the statement of a larger region, which is registered in its turn.
  \<open>pool_exprs\<close> is the next free address for a condition expression of the
  reaching conditions, the only expressions whose pointers are ever compared.
  \<^verbatim>\<open>pool.clear()\<close> gives \<open>empty_pool\<close>.
\<close>

type_synonym stmt_ref = nat

record DumbAllocator =
  pool_stmts :: "stmt list"
  pool_exprs :: nat

definition empty_pool :: DumbAllocator where
  "empty_pool = \<lparr>pool_stmts = [], pool_exprs = 0\<rparr>"

definition allocate_stmt :: "stmt \<Rightarrow> DumbAllocator \<Rightarrow> stmt_ref \<times> DumbAllocator" where
  "allocate_stmt s pool = (length (pool_stmts pool), pool\<lparr>pool_stmts := pool_stmts pool @ [s]\<rparr>)"

definition allocate_stmts :: "stmt list \<Rightarrow> DumbAllocator \<Rightarrow> DumbAllocator" where
  "allocate_stmts statements pool = foldl (\<lambda>p s. snd (allocate_stmt s p)) pool statements"

definition stmt_at :: "DumbAllocator \<Rightarrow> stmt_ref \<Rightarrow> stmt option" where
  "stmt_at pool r = (if r < length (pool_stmts pool) then Some (pool_stmts pool ! r) else None)"

text \<open>
  Modelled from the spec: the class declarations of \<^verbatim>\<open>ast_grapher.h\<close> are not among the
  sources. A graph node is a statement with its entry block, never null, and its exit
  block; \<open>hasExit\<close> says that the two differ. An \<^verbatim>\<open>AstGraphNode*\<close> is the position of the
  node in \<open>nodeStorage\<close>, which only grows. The grapher's two indices are
  \<open>nodeByEntry\<close> and \<open>graphNodeByAstNode\<close>.
\<close>

record AstGraphNode =
  gn_node :: stmt_ref
  gn_entry :: block
  gn_exit :: "block option"

definition hasExit :: "AstGraphNode \<Rightarrow> bool" where
  "hasExit n = (gn_exit n \<noteq> Some (gn_entry n))"

record AstGrapher =
  nodeStorage :: "AstGraphNode list"
  nodeByEntry :: "block \<Rightarrow> stmt_ref option"
  graphNodeByAstNode :: "stmt_ref \<Rightarrow> nat option"

definition new_grapher :: AstGrapher where
  "new_grapher = \<lparr>nodeStorage = [], nodeByEntry = (\<lambda>b. None), graphNodeByAstNode = (\<lambda>s. None)\<rparr>"

text \<open>
  The \<^verbatim>\<open>for\<close> loop of \<^verbatim>\<open>addBasicBlock\<close>: an instruction that is neither a \<^verbatim>\<open>BranchInst\<close>
  nor a \<^verbatim>\<open>SwitchInst\<close> is wrapped in a value expression and an expression statement,
  pushed at the back of the new sequence. The sequence is allocated before its
  expression statements, which follow it in the arena in their order: the statement
  number \<open>i\<close> of the sequence at the address \<open>r\<close> is the object at \<open>r + 1 + i\<close>.
\<close>

fun addInstructions :: "instruction list \<Rightarrow> stmt list \<Rightarrow> stmt list" where
  "addInstructions [] statements = statements"
| "addInstructions (inst # rest) statements =
     addInstructions rest
       (if \<not> isBranchInst (kind_of inst) \<and> \<not> isSwitchInst (kind_of inst)
        then statements @ [Expression (Value (inst_value inst))]
        else statements)"

definition addBasicBlock ::
  "func \<Rightarrow> block \<Rightarrow> DumbAllocator \<times> AstGrapher \<Rightarrow> stmt_ref \<times> DumbAllocator \<times> AstGrapher" where
  "addBasicBlock fn bb pg =
     (case pg of (pool, g) \<Rightarrow>
        (case allocate_stmt (Sequence (addInstructions (blockInsts fn bb) [])) pool of
           (node, pool') \<Rightarrow>
             (node, allocate_stmts (addInstructions (blockInsts fn bb) []) pool',
              g\<lparr>nodeStorage := nodeStorage g @ [\<lparr>gn_node = node, gn_entry = bb, gn_exit = Some bb\<rparr>],
                nodeByEntry := (nodeByEntry g)(bb := Some node),
                graphNodeByAstNode := (graphNodeByAstNode g)(node := Some (length (nodeStorage g)))\<rparr>)))"

definition updateRegion ::
  "block \<Rightarrow> block option \<Rightarrow> stmt_ref \<Rightarrow> AstGrapher \<Rightarrow> AstGrapher" where
  "updateRegion entry exit node g =
     g\<lparr>nodeStorage := nodeStorage g @ [\<lparr>gn_node = node, gn_entry = entry, gn_exit = exit\<rparr>],
       nodeByEntry := (nodeByEntry g)(entry := Some node),
       graphNodeByAstNode := (graphNodeByAstNode g)(node := Some (length (nodeStorage g)))\<rparr>"

definition getGraphNode :: "AstGrapher \<Rightarrow> stmt_ref \<Rightarrow> nat option" where
  "getGraphNode g node = graphNodeByAstNode g node"

definition getGraphNodeFromEntry :: "AstGrapher \<Rightarrow> block option \<Rightarrow> nat option" where
  "getGraphNodeFromEntry g blk =
     (case blk of
        None \<Rightarrow> None
      | Some b \<Rightarrow> (case nodeByEntry g b of None \<Rightarrow> None | Some node \<Rightarrow> getGraphNode g node))"

section \<open>The Boolean simplifier\<close>

text \<open>
  What can go wrong at run time: reading \<^verbatim>\<open>front()\<close> of an empty vector, following a
  null pointer, a graph node that is not in the node storage, \<^verbatim>\<open>conditions.at\<close> on a
  statement without reaching conditions, a \<^verbatim>\<open>cast\<close> to the wrong class, and a failed
  assertion. \<open>OutOfFuel\<close> is not a behaviour of the code: the two loops of the driver
  whose end depends on the analyses or on the state they build are given a bound, and
  \<open>OutOfFuel\<close> says that the bound was reached.
\<close>

datatype failure =
    FrontOfEmptyVector
  | NullDereference
  | DanglingNode
  | MissingConditions
  | BadCast
  | AssertionFailed
  | OutOfFuel

text \<open>
  An \<^verbatim>\<open>Expression*\<close> in a reaching condition is the address of the object together with
  the expression it points to. \<^verbatim>\<open>==\<close> on two such pointers compares the addresses.

  Modelled from the spec: the body of \<^verbatim>\<open>isReferenceEqual\<close> is not among the sources. Two
  expressions are reference-equal when they are built in the same way from the same IR
  values, whatever their addresses.
\<close>

type_synonym expr_ptr = "nat \<times> expr"

fun isReferenceEqual :: "expr \<Rightarrow> expr \<Rightarrow> bool" where
  "isReferenceEqual (Value a) (Value b) = (a = b)"
| "isReferenceEqual (UnaryNot a) (UnaryNot b) = isReferenceEqual a b"
| "isReferenceEqual (Binary opa la ra) (Binary opb lb rb) =
     (opa = opb \<and> isReferenceEqual la lb \<and> isReferenceEqual ra rb)"
| "isReferenceEqual a b = False"

text \<open>
  \<^verbatim>\<open>std::find_if\<close> on a whole vector: the position of the first element that satisfies
  the predicate, or the length of the vector (\<^verbatim>\<open>end()\<close>).
\<close>

fun find_if :: "('a \<Rightarrow> bool) \<Rightarrow> 'a list \<Rightarrow> nat" where
  "find_if P [] = 0"
| "find_if P (x # xs) = (if P x then 0 else Suc (find_if P xs))"

text \<open>
  Step 1. \<open>termLocations\<close> is the inner \<^verbatim>\<open>for\<close> loop: it looks the term up in each of
  the other products and stops at the first product that does not have it.
  \<open>collectTerms\<close> is the \<^verbatim>\<open>while\<close> loop over the first product: \<open>kept\<close> are the terms
  before \<^verbatim>\<open>termIter\<close>, which stay; a term found in every other product becomes a sum of
  its own and is erased from every product.
\<close>

fun termLocations :: "expr_ptr \<Rightarrow> expr_ptr list list \<Rightarrow> nat list" where
  "termLocations t [] = []"
| "termLocations t (p # ps) =
     (if find_if (\<lambda>that. isReferenceEqual (snd that) (snd t)) p = length p then []
      else find_if (\<lambda>that. isReferenceEqual (snd that) (snd t)) p # termLocations t ps)"

definition erase_at :: "nat \<Rightarrow> 'a list \<Rightarrow> 'a list" where
  "erase_at i xs = take i xs @ drop (Suc i) xs"

fun collectTerms ::
  "expr_ptr list \<Rightarrow> expr_ptr list \<Rightarrow> expr_ptr list list \<Rightarrow> expr_ptr list list \<Rightarrow>
   expr_ptr list \<times> expr_ptr list list \<times> expr_ptr list list" where
  "collectTerms kept [] others productOfSums = (kept, others, productOfSums)"
| "collectTerms kept (t # rest) others productOfSums =
     (if length (termLocations t others) = length others
      then collectTerms kept rest (map2 erase_at (termLocations t others) others)
             (productOfSums @ [[t]])
      else collectTerms (kept @ [t]) rest others productOfSums)"

text \<open>
  Step 2. \<^verbatim>\<open>expandToProductOfSums\<close> returns what it pushes at the back of \<^verbatim>\<open>output\<close>;
  \<open>rows\<close> are the products from \<^verbatim>\<open>sumOfProductsIter\<close> to the end.
\<close>

fun expandToProductOfSums :: "expr_ptr list \<Rightarrow> expr_ptr list list \<Rightarrow> expr_ptr list list" where
  "expandToProductOfSums stack [] = [stack]"
| "expandToProductOfSums stack (row # rows) =
     concat (map (\<lambda>e. expandToProductOfSums (stack @ [e]) rows) row)"

text \<open>
  Step 3 works on one sum in place, between the positions \<open>iter\<close> and \<open>endi\<close>.
  \<^verbatim>\<open>std::remove(first, last, value)\<close> takes \<^verbatim>\<open>value\<close> by reference, and both calls pass
  an element of the range itself, \<^verbatim>\<open>*negation\<close> and \<^verbatim>\<open>*iter\<close>: \<open>v\<close> is the position the
  reference designates, read again at every comparison, also after \<^verbatim>\<open>remove\<close> has moved
  another element there.
\<close>

function find_ptr :: "expr_ptr list \<Rightarrow> nat \<Rightarrow> nat \<Rightarrow> nat \<Rightarrow> nat" where
  "find_ptr arr v first lasti =
     (if first < lasti \<and> fst (arr ! first) \<noteq> fst (arr ! v) then find_ptr arr v (Suc first) lasti
      else first)"
  by pat_completeness auto
termination
  by (relation "measure (\<lambda>(arr, v, first, lasti). lasti - first)") auto

declare find_ptr.simps [simp del]

function remove_loop :: "expr_ptr list \<Rightarrow> nat \<Rightarrow> nat \<Rightarrow> nat \<Rightarrow> nat \<Rightarrow> expr_ptr list \<times> nat" where
  "remove_loop arr v first i lasti =
     (if Suc i < lasti
      then (if fst (arr ! Suc i) \<noteq> fst (arr ! v)
            then remove_loop (arr[first := arr ! Suc i]) v (Suc first) (Suc i) lasti
            else remove_loop arr v first (Suc i) lasti)
      else (arr, first))"
  by pat_completeness auto
termination
  by (relation "measure (\<lambda>(arr, v, first, i, lasti). lasti - i)") auto

declare remove_loop.simps [simp del]

definition std_remove :: "expr_ptr list \<Rightarrow> nat \<Rightarrow> nat \<Rightarrow> nat \<Rightarrow> expr_ptr list \<times> nat" where
  "std_remove arr first lasti v =
     (if find_ptr arr v first lasti < lasti
      then remove_loop arr v (find_ptr arr v first lasti) (find_ptr arr v first lasti) lasti
      else (arr, find_ptr arr v first lasti))"

definition find_negation :: "expr_ptr list \<Rightarrow> nat \<Rightarrow> nat \<Rightarrow> nat" where
  "find_negation arr iter endi =
     (case snd (arr ! iter) of
        UnaryNot operand \<Rightarrow>
          Suc iter + find_if (\<lambda>that. isReferenceEqual (snd that) operand)
                       (drop (Suc iter) (take endi arr))
      | e \<Rightarrow>
          Suc iter + find_if (\<lambda>that. case snd that of
                                  UnaryNot operand \<Rightarrow> isReferenceEqual operand e
                                | other \<Rightarrow> False)
                       (drop (Suc iter) (take endi arr)))"

lemma find_ptr_le: "first \<le> lasti \<Longrightarrow> find_ptr arr v first lasti \<le> lasti"
  by (induction arr v first lasti rule: find_ptr.induct) (subst find_ptr.simps, auto)

lemma find_ptr_ge: "first \<le> find_ptr arr v first lasti"
proof (induction arr v first lasti rule: find_ptr.induct)
  case (1 arr v first lasti)
  show ?case
  proof (cases "first < lasti \<and> fst (arr ! first) \<noteq> fst (arr ! v)")
    case True
    with 1 have "Suc first \<le> find_ptr arr v (Suc first) lasti" by simp
    then show ?thesis using True by (subst find_ptr.simps) simp
  next
    case False
    then show ?thesis by (subst find_ptr.simps) auto
  qed
qed

lemma remove_loop_bounds:
  "first \<le> i \<Longrightarrow> first \<le> snd (remove_loop arr v first i lasti) \<and>
     snd (remove_loop arr v first i lasti) \<le> i \<or> first \<le> snd (remove_loop arr v first i lasti) \<and> snd (remove_loop arr v first i lasti) < lasti"
proof (induction arr v first i lasti rule: remove_loop.induct)
  case (1 arr v first i lasti)
  show ?case
  proof (cases "Suc i < lasti")
    case False
    then show ?thesis using 1(3) by (subst (1 2 3 4) remove_loop.simps) simp
  next
    case True
    show ?thesis
    proof (cases "fst (arr ! Suc i) \<noteq> fst (arr ! v)")
      case t: True
      have "Suc first \<le> Suc i" using 1(3) by simp
      from 1(1) [OF True t this] show ?thesis
        using True t by (subst (1 2 3 4) remove_loop.simps) auto
    next
      case f: False
      have "first \<le> Suc i" using 1(3) by simp
      from 1(2) [OF True f this] show ?thesis
        using True f by (subst (1 2 3 4) remove_loop.simps) auto
    qed
  qed
qed

lemma std_remove_ge: "first \<le> snd (std_remove arr first lasti v)"
  using find_ptr_ge [of first arr v lasti]
    remove_loop_bounds [of "find_ptr arr v first lasti" "find_ptr arr v first lasti" arr v lasti]
  by (auto simp: std_remove_def)

lemma std_remove_le: "first \<le> lasti \<Longrightarrow> snd (std_remove arr first lasti v) \<le> lasti"
  using find_ptr_le [of first lasti arr v]
    remove_loop_bounds [of "find_ptr arr v first lasti" "find_ptr arr v first lasti" arr v lasti]
  by (auto simp: std_remove_def)

lemma std_remove_self: "first < lasti \<Longrightarrow> snd (std_remove arr first lasti first) < lasti"
proof -
  assume a: "first < lasti"
  have f: "find_ptr arr first first lasti = first" by (subst find_ptr.simps) simp
  show ?thesis
    using a remove_loop_bounds [of first first arr first lasti]
    by (auto simp: std_remove_def f)
qed

function removeNegations :: "expr_ptr list \<Rightarrow> nat \<Rightarrow> nat \<Rightarrow> expr_ptr list \<times> nat" where
  "removeNegations arr iter endi =
     (if iter < endi then
        (if find_negation arr iter endi < endi
         then (case std_remove arr (find_negation arr iter endi) endi (find_negation arr iter endi) of
                 (arr1, end1) \<Rightarrow>
                   (case std_remove arr1 iter end1 iter of
                      (arr2, end2) \<Rightarrow> removeNegations arr2 iter end2))
         else removeNegations arr (Suc iter) endi)
      else (arr, endi))"
  by pat_completeness auto

lemma find_negation_gt: "iter < find_negation arr iter endi"
  by (simp add: find_negation_def split: expr.splits)

lemma removeNegations_measure:
  assumes "iter < endi" and n: "find_negation arr iter endi < endi"
    and r1: "(arr1, end1) = std_remove arr (find_negation arr iter endi) endi (find_negation arr iter endi)"
    and r2: "(arr2, end2) = std_remove arr1 iter end1 iter"
  shows "end2 - iter < endi - iter"
proof -
  have e1: "end1 = snd (std_remove arr (find_negation arr iter endi) endi (find_negation arr iter endi))"
    using r1 by (metis snd_conv)
  have e2: "end2 = snd (std_remove arr1 iter end1 iter)" using r2 by (metis snd_conv)
  have a: "end1 < endi" unfolding e1 using n by (rule std_remove_self)
  have b: "find_negation arr iter endi \<le> end1" unfolding e1 by (rule std_remove_ge)
  have "iter < end1" using b find_negation_gt [of iter arr endi] by simp
  then have "end2 < end1" unfolding e2 by (rule std_remove_self)
  then show ?thesis using a assms(1) by simp
qed

termination removeNegations
  apply (relation "measure (\<lambda>(arr, iter, endi). endi - iter)")
    apply simp
   apply (simp only: in_measure prod.case)
   apply (erule (3) removeNegations_measure)
  apply simp
  done

declare removeNegations.simps [simp del]

text \<open>
  \<^verbatim>\<open>simplifySumOfProducts\<close>. The products left after step 1 are \<open>remaining\<close>; step 2
  reads \<^verbatim>\<open>sumOfProducts.front()\<close>, which fails when nothing is left.
\<close>

definition simplifySum :: "expr_ptr list \<Rightarrow> expr_ptr list" where
  "simplifySum asum = (case removeNegations asum 0 (length asum) of (arr, endi) \<Rightarrow> take endi arr)"

definition simplifySumOfProducts :: "expr_ptr list list \<Rightarrow> failure + expr_ptr list list" where
  "simplifySumOfProducts sumOfProducts =
     (if sumOfProducts = [] then Inr sumOfProducts
      else
        (case (if length sumOfProducts > 1
               then (case collectTerms [] (hd sumOfProducts) (tl sumOfProducts) [] of
                       (firstProduct, others, productOfSums) \<Rightarrow>
                         (filter (\<lambda>p. p \<noteq> []) (firstProduct # others), productOfSums))
               else (sumOfProducts, [])) of
           (remaining, productOfSums) \<Rightarrow>
             (case remaining of
                [] \<Rightarrow> Inl FrontOfEmptyVector
              | firstProduct # rest \<Rightarrow>
                  Inr (filter (\<lambda>s. s \<noteq> [])
                         (map simplifySum
                            (productOfSums @
                             concat (map (\<lambda>e. expandToProductOfSums [e] rest) firstProduct)))))))"

text \<open>
  The meaning of a condition under a truth assignment to the IR values, of a sum of
  products and of a product of sums; \<open>distribute\<close> turns a product of sums back into a
  sum of products, by the same expansion as step 2.
\<close>

fun eval_expr :: "(irvalue \<Rightarrow> bool) \<Rightarrow> expr \<Rightarrow> bool" where
  "eval_expr env (Value v) = env v"
| "eval_expr env (UnaryNot e) = (\<not> eval_expr env e)"
| "eval_expr env (Binary ShortCircuitAnd l r) = (eval_expr env l \<and> eval_expr env r)"
| "eval_expr env (Binary ShortCircuitOr l r) = (eval_expr env l \<or> eval_expr env r)"

definition eval_sop :: "(irvalue \<Rightarrow> bool) \<Rightarrow> expr_ptr list list \<Rightarrow> bool" where
  "eval_sop env sumOfProducts = list_ex (list_all (\<lambda>t. eval_expr env (snd t))) sumOfProducts"

definition eval_pos :: "(irvalue \<Rightarrow> bool) \<Rightarrow> expr_ptr list list \<Rightarrow> bool" where
  "eval_pos env productOfSums = list_all (list_ex (\<lambda>t. eval_expr env (snd t))) productOfSums"

definition distribute :: "expr_ptr list list \<Rightarrow> expr_ptr list list" where
  "distribute productOfSums = expandToProductOfSums [] productOfSums"

section \<open>Reaching conditions\<close>

text \<open>
  \<^verbatim>\<open>ReachingConditions::conditions\<close> maps a statement to its sum of products; a
  statement without an entry is \<open>None\<close>. \<open>push_condition\<close> is
  \<^verbatim>\<open>conditions[node].push_back(conditionStack)\<close>, and \<open>allocate_expr\<close> is
  \<^verbatim>\<open>pool.allocate\<close> for a condition expression.
\<close>

type_synonym conditions = "stmt_ref \<Rightarrow> expr_ptr list list option"

definition push_condition :: "stmt_ref \<Rightarrow> expr_ptr list \<Rightarrow> conditions \<Rightarrow> conditions" where
  "push_condition node conditionStack conds =
     conds(node := Some ((case conds node of None \<Rightarrow> [] | Some products \<Rightarrow> products) @ [conditionStack]))"

definition allocate_expr :: "expr \<Rightarrow> DumbAllocator \<Rightarrow> expr_ptr \<times> DumbAllocator" where
  "allocate_expr e pool = ((pool_exprs pool, e), pool\<lparr>pool_exprs := Suc (pool_exprs pool)\<rparr>)"

text \<open>
  \<^verbatim>\<open>ReachingConditions::build\<close>. The condition stack and the visit stack are passed by
  reference and restored before every return, so each call gets them as values; the
  conditions and the arena are threaded through. A null \<open>currentNode\<close> that is not on
  the visit stack is dereferenced. The nodes not on the visit stack become fewer with
  every call, which is why the recursion ends.
\<close>

definition unvisited :: "AstGrapher \<Rightarrow> nat option list \<Rightarrow> nat set" where
  "unvisited g visitStack = {n. n < length (nodeStorage g) \<and> Some n \<notin> set visitStack}"

function build ::
  "AstGrapher \<Rightarrow> func \<Rightarrow> nat option \<Rightarrow> expr_ptr list \<Rightarrow> nat option list \<Rightarrow>
   conditions \<times> DumbAllocator \<Rightarrow> failure + conditions \<times> DumbAllocator" where
  "build g fn currentNode conditionStack visitStack st =
     (if currentNode \<in> set visitStack then Inr st
      else (case currentNode of
        None \<Rightarrow> Inl NullDereference
      | Some n \<Rightarrow>
          if \<not> n < length (nodeStorage g) then Inl DanglingNode
          else if hasExit (nodeStorage g ! n)
          then build g fn (getGraphNodeFromEntry g (gn_exit (nodeStorage g ! n))) conditionStack
                 (visitStack @ [currentNode])
                 (push_condition (gn_node (nodeStorage g ! n)) conditionStack (fst st), snd st)
          else (case getTerminator fn (gn_entry (nodeStorage g ! n)) of
              None \<Rightarrow> Inl NullDereference
            | Some (CondBr c s0 s1) \<Rightarrow>
                (case build g fn (getGraphNodeFromEntry g (Some s0))
                        (conditionStack @ [fst (allocate_expr (Value c) (snd st))])
                        (visitStack @ [currentNode])
                        (push_condition (gn_node (nodeStorage g ! n)) conditionStack (fst st),
                         snd (allocate_expr (Value c) (snd st))) of
                   Inl e \<Rightarrow> Inl e
                 | Inr st2 \<Rightarrow>
                     build g fn (getGraphNodeFromEntry g (Some s1))
                       (conditionStack @ [fst (allocate_expr (UnaryNot (Value c)) (snd st2))])
                       (visitStack @ [currentNode])
                       (fst st2, snd (allocate_expr (UnaryNot (Value c)) (snd st2))))
            | Some (Br s0) \<Rightarrow>
                build g fn (getGraphNodeFromEntry g (Some s0)) conditionStack
                  (visitStack @ [currentNode])
                  (push_condition (gn_node (nodeStorage g ! n)) conditionStack (fst st), snd st)
            | Some other \<Rightarrow>
                Inr (push_condition (gn_node (nodeStorage g ! n)) conditionStack (fst st), snd st))))"
  by pat_completeness auto

lemma unvisited_push:
  assumes "n < length (nodeStorage g)" and "Some n \<notin> set visitStack"
  shows "card (unvisited g (visitStack @ [Some n])) < card (unvisited g visitStack)"
proof -
  have fin: "finite (unvisited g visitStack)" by (simp add: unvisited_def)
  have "unvisited g (visitStack @ [Some n]) \<subseteq> unvisited g visitStack - {n}"
    by (auto simp: unvisited_def)
  moreover have "n \<in> unvisited g visitStack" using assms by (simp add: unvisited_def)
  ultimately show ?thesis using fin
    by (meson card_Diff1_less card_mono finite_Diff le_less_trans)
qed

termination build
  apply (relation "measure (\<lambda>(g, fn, currentNode, conditionStack, visitStack, st). card (unvisited g visitStack))")
      apply simp
     apply (simp_all only: in_measure prod.case)
     apply (auto intro: unvisited_push)
  done

declare build.simps [simp del]

definition buildSumsOfProducts ::
  "AstGrapher \<Rightarrow> func \<Rightarrow> nat option \<Rightarrow> nat option \<Rightarrow> conditions \<times> DumbAllocator \<Rightarrow>
   failure + conditions \<times> DumbAllocator" where
  "buildSumsOfProducts g fn regionStart regionEnd st = build g fn regionStart [] [regionEnd] st"

text \<open>
  What a walk records: at every statement, products are only added at the back, and
  each new product is the condition stack of the call followed by branch predicates,
  each the value of a branch condition or its negation.
\<close>

fun is_branch_predicate :: "expr \<Rightarrow> bool" where
  "is_branch_predicate (Value c) = True"
| "is_branch_predicate (UnaryNot (Value c)) = True"
| "is_branch_predicate other = False"

definition products_of :: "conditions \<Rightarrow> stmt_ref \<Rightarrow> expr_ptr list list" where
  "products_of conds s = (case conds s of None \<Rightarrow> [] | Some products \<Rightarrow> products)"

definition records_extensions :: "expr_ptr list \<Rightarrow> conditions \<Rightarrow> conditions \<Rightarrow> bool" where
  "records_extensions conditionStack conds conds' =
     (\<forall>s. \<exists>new. products_of conds' s = products_of conds s @ new \<and>
        (\<forall>p \<in> set new. \<exists>ext. p = conditionStack @ ext \<and>
           (\<forall>t \<in> set ext. is_branch_predicate (snd t))))"

text \<open>
  The paths of a walk. \<open>reaches g fn visitStack n conds m\<close>: from the node \<open>n\<close>, met
  with \<open>visitStack\<close>, there is a path to the node \<open>m\<close> that never comes to a node on the
  visit stack, which gets every node the path leaves; \<open>conds\<close> are the branch
  predicates along the path. From a node with a distinct exit the path goes on at the
  node of that exit; from any other node it follows the terminator of the entry block:
  successor 0 of a conditional branch on \<open>c\<close> with \<open>Value c\<close>, successor 1 with
  \<open>UnaryNot (Value c)\<close>, the successor of an unconditional branch with nothing.
  \<open>added_products\<close> are the products that a statement has got since.
\<close>

inductive reaches :: "AstGrapher \<Rightarrow> func \<Rightarrow> nat option list \<Rightarrow> nat \<Rightarrow> expr list \<Rightarrow> nat \<Rightarrow> bool"
  for g :: AstGrapher and fn :: func where
  arrived:
    "Some n \<notin> set visitStack \<Longrightarrow> n < length (nodeStorage g) \<Longrightarrow> reaches g fn visitStack n [] n"
| through_folded:
    "Some n \<notin> set visitStack \<Longrightarrow> n < length (nodeStorage g) \<Longrightarrow>
     hasExit (nodeStorage g ! n) \<Longrightarrow>
     getGraphNodeFromEntry g (gn_exit (nodeStorage g ! n)) = Some k \<Longrightarrow>
     reaches g fn (visitStack @ [Some n]) k conds m \<Longrightarrow>
     reaches g fn visitStack n conds m"
| through_successor0:
    "Some n \<notin> set visitStack \<Longrightarrow> n < length (nodeStorage g) \<Longrightarrow>
     \<not> hasExit (nodeStorage g ! n) \<Longrightarrow>
     getTerminator fn (gn_entry (nodeStorage g ! n)) = Some (CondBr c s0 s1) \<Longrightarrow>
     getGraphNodeFromEntry g (Some s0) = Some k \<Longrightarrow>
     reaches g fn (visitStack @ [Some n]) k conds m \<Longrightarrow>
     reaches g fn visitStack n (Value c # conds) m"
| through_successor1:
    "Some n \<notin> set visitStack \<Longrightarrow> n < length (nodeStorage g) \<Longrightarrow>
     \<not> hasExit (nodeStorage g ! n) \<Longrightarrow>
     getTerminator fn (gn_entry (nodeStorage g ! n)) = Some (CondBr c s0 s1) \<Longrightarrow>
     getGraphNodeFromEntry g (Some s1) = Some k \<Longrightarrow>
     reaches g fn (visitStack @ [Some n]) k conds m \<Longrightarrow>
     reaches g fn visitStack n (UnaryNot (Value c) # conds) m"
| through_branch:
    "Some n \<notin> set visitStack \<Longrightarrow> n < length (nodeStorage g) \<Longrightarrow>
     \<not> hasExit (nodeStorage g ! n) \<Longrightarrow>
     getTerminator fn (gn_entry (nodeStorage g ! n)) = Some (Br s0) \<Longrightarrow>
     getGraphNodeFromEntry g (Some s0) = Some k \<Longrightarrow>
     reaches g fn (visitStack @ [Some n]) k conds m \<Longrightarrow>
     reaches g fn visitStack n conds m"

code_pred reaches .

definition added_products :: "conditions \<Rightarrow> conditions \<Rightarrow> stmt_ref \<Rightarrow> expr_ptr list list" where
  "added_products conds conds' s = drop (length (products_of conds s)) (products_of conds' s)"

text \<open>
  \<open>appends\<close>: every statement has the products it had, with more after them.
  \<open>path_products\<close>: every product of \<open>new\<close> is the condition stack followed by the
  branch predicates of a path from the current node to a node of the statement \<open>s\<close>.
\<close>

definition appends :: "conditions \<Rightarrow> conditions \<Rightarrow> bool" where
  "appends a b = (\<forall>s. \<exists>new. products_of b s = products_of a s @ new)"

definition path_products ::
  "AstGrapher \<Rightarrow> func \<Rightarrow> nat option list \<Rightarrow> nat option \<Rightarrow> expr_ptr list \<Rightarrow>
   expr_ptr list list \<Rightarrow> stmt_ref \<Rightarrow> bool" where
  "path_products g fn vs cur cs new s =
     (\<forall>p \<in> set new. \<exists>n ext m. cur = Some n \<and> p = cs @ ext \<and>
         reaches g fn vs n (map snd ext) m \<and> gn_node (nodeStorage g ! m) = s)"

text \<open>The grapher after the four blocks of the diamond have been added, in post-order.\<close>

definition diamond_grapher :: "DumbAllocator \<times> AstGrapher" where
  "diamond_grapher =
     snd (addBasicBlock diamond 0 (snd (addBasicBlock diamond 3 (snd (addBasicBlock diamond 2
       (snd (addBasicBlock diamond 4 (empty_pool, new_grapher))))))))"

section \<open>Structuring a region\<close>

text \<open>
  \<^verbatim>\<open>postOrder\<close> and \<^verbatim>\<open>reversePostOrder\<close> over the AST graph. \<open>visited\<close> is the set of
  graph nodes seen, with the region's exit in it from the start; a null node that is
  not in it is dereferenced. The recursion is as deep as there are nodes to visit at
  most; \<open>reversePostOrder\<close> gives it two more than the number of graph nodes.
  \<open>postOrderSuccessors\<close> is the \<^verbatim>\<open>for\<close> loop over the successors of the entry block.
\<close>

fun postOrder ::
  "nat \<Rightarrow> AstGrapher \<Rightarrow> func \<Rightarrow> nat option \<Rightarrow> stmt_ref list \<times> nat option list \<Rightarrow>
   failure + stmt_ref list \<times> nat option list"
  and postOrderSuccessors ::
  "nat \<Rightarrow> AstGrapher \<Rightarrow> func \<Rightarrow> block list \<Rightarrow> stmt_ref list \<times> nat option list \<Rightarrow>
   failure + stmt_ref list \<times> nat option list" where
  "postOrder 0 g fn current st = Inl OutOfFuel"
| "postOrder (Suc fuel) g fn current st =
     (if current \<in> set (snd st) then Inr st
      else (case current of
        None \<Rightarrow> Inl NullDereference
      | Some n \<Rightarrow>
          if \<not> n < length (nodeStorage g) then Inl DanglingNode
          else (case (if hasExit (nodeStorage g ! n)
                      then postOrder fuel g fn (getGraphNodeFromEntry g (gn_exit (nodeStorage g ! n)))
                             (fst st, current # snd st)
                      else postOrderSuccessors fuel g fn (successors fn (gn_entry (nodeStorage g ! n)))
                             (fst st, current # snd st)) of
                  Inl e \<Rightarrow> Inl e
                | Inr st' \<Rightarrow> Inr (fst st' @ [gn_node (nodeStorage g ! n)], snd st'))))"
| "postOrderSuccessors fuel g fn [] st = Inr st"
| "postOrderSuccessors fuel g fn (succ # rest) st =
     (case postOrder fuel g fn (getGraphNodeFromEntry g (Some succ)) st of
        Inl e \<Rightarrow> Inl e
      | Inr st' \<Rightarrow> postOrderSuccessors fuel g fn rest st')"

definition postOrder_fuel :: "AstGrapher \<Rightarrow> nat" where
  "postOrder_fuel g = Suc (Suc (length (nodeStorage g)))"

definition reversePostOrder ::
  "AstGrapher \<Rightarrow> func \<Rightarrow> nat option \<Rightarrow> nat option \<Rightarrow> failure + stmt_ref list" where
  "reversePostOrder g fn entry exit =
     (case postOrder (postOrder_fuel g) g fn entry ([], [exit]) of
        Inl e \<Rightarrow> Inl e
      | Inr st \<Rightarrow> Inr (rev (fst st)))"

text \<open>\<^verbatim>\<open>coalesce\<close> and \<^verbatim>\<open>collapse\<close>; a null expression is \<open>None\<close>.\<close>

fun coalesce :: "binop \<Rightarrow> expr option \<Rightarrow> expr option \<Rightarrow> expr option" where
  "coalesce joint None right = right"
| "coalesce joint (Some left) None = Some left"
| "coalesce joint (Some left) (Some right) = Some (Binary joint left right)"

definition collapse :: "expr_ptr list \<Rightarrow> binop \<Rightarrow> expr option" where
  "collapse terms joint = foldl (\<lambda>result expression. coalesce joint result (Some (snd expression))) None terms"

text \<open>
  The body of the \<^verbatim>\<open>for\<close> loop of \<^verbatim>\<open>structurizeRegion\<close> that places one node.
  \<open>body\<close> are the statements of the sequence that \<^verbatim>\<open>body\<close> points to; following the
  pointer into the last \<open>IfElse\<close> is the recursive call on that branch's statements,
  put back in place of the branch. When the last statement is an \<open>IfElse\<close>, the code
  replaces \<^verbatim>\<open>condition\<close> by its operand if it is a negation, before it compares: a new
  \<open>IfElse\<close> made after a failed comparison gets that operand as its condition.
  \<^verbatim>\<open>cast<SequenceNode>\<close> fails on a branch that is not a sequence.
\<close>

fun strip_negation :: "expr \<Rightarrow> bool \<times> expr" where
  "strip_negation (UnaryNot operand) = (True, operand)"
| "strip_negation e = (False, e)"

fun insertNode :: "expr_ptr list list \<Rightarrow> stmt \<Rightarrow> stmt list \<Rightarrow> failure + stmt list" where
  "insertNode [] node body = Inr (body @ [node])"
| "insertNode (asum # sums) node body =
     (case collapse asum ShortCircuitOr of
        None \<Rightarrow> Inl NullDereference
      | Some condition \<Rightarrow>
          (case (if body = [] then None
                 else (case last body of IfElse c a b \<Rightarrow> Some (c, a, b) | other \<Rightarrow> None)) of
             None \<Rightarrow>
               (case insertNode sums node [] of
                  Inl e \<Rightarrow> Inl e
                | Inr ifBody \<Rightarrow> Inr (body @ [IfElse condition (Sequence ifBody) None]))
           | Some (conditional, ifBody, elseBody) \<Rightarrow>
               if isReferenceEqual (snd (strip_negation conditional)) (snd (strip_negation condition))
               then
                 (if fst (strip_negation condition) = fst (strip_negation conditional)
                  then (case ifBody of
                          Sequence statements \<Rightarrow>
                            (case insertNode sums node statements of
                               Inl e \<Rightarrow> Inl e
                             | Inr statements' \<Rightarrow>
                                 Inr (butlast body @ [IfElse conditional (Sequence statements') elseBody]))
                        | other \<Rightarrow> Inl BadCast)
                  else (case elseBody of
                          None \<Rightarrow>
                            (case insertNode sums node [] of
                               Inl e \<Rightarrow> Inl e
                             | Inr statements' \<Rightarrow>
                                 Inr (butlast body @ [IfElse conditional ifBody (Some (Sequence statements'))]))
                        | Some (Sequence statements) \<Rightarrow>
                            (case insertNode sums node statements of
                               Inl e \<Rightarrow> Inl e
                             | Inr statements' \<Rightarrow>
                                 Inr (butlast body @ [IfElse conditional ifBody (Some (Sequence statements'))]))
                        | Some other \<Rightarrow> Inl BadCast))
               else
                 (case insertNode sums node [] of
                    Inl e \<Rightarrow> Inl e
                  | Inr newBody \<Rightarrow>
                      Inr (body @ [IfElse (snd (strip_negation condition)) (Sequence newBody) None]))))"

text \<open>
  \<open>structurizeNodes\<close> is the \<^verbatim>\<open>for\<close> loop over the nodes in reverse post-order; the
  statement a node stands for is read from the arena. Beside the statements of the
  region's sequence it keeps their \<open>origins\<close>: a statement of that sequence is the
  statement of a node, pushed by \<^verbatim>\<open>body->statements.push_back(node)\<close> when the node has
  no condition, and then its origin is the node's address; or it is an \<open>IfElse\<close> made
  here, and then its origin is \<open>None\<close>. An insertion that leaves the sequence as long
  as it was went into its last \<open>IfElse\<close>. \<^verbatim>\<open>structurizeRegion\<close> returns the sequence
  together with the origins and the arena.
\<close>

fun structurizeNodes ::
  "DumbAllocator \<Rightarrow> conditions \<Rightarrow> stmt_ref list \<Rightarrow> stmt list \<times> stmt_ref option list \<Rightarrow>
   failure + stmt list \<times> stmt_ref option list" where
  "structurizeNodes pool conds [] sequence = Inr sequence"
| "structurizeNodes pool conds (node # nodes) sequence =
     (case conds node of
        None \<Rightarrow> Inl MissingConditions
      | Some path \<Rightarrow>
          (case simplifySumOfProducts path of
             Inl e \<Rightarrow> Inl e
           | Inr productOfSums \<Rightarrow>
               (case stmt_at pool node of
                  None \<Rightarrow> Inl DanglingNode
                | Some s \<Rightarrow>
                    (case insertNode productOfSums s (fst sequence) of
                       Inl e \<Rightarrow> Inl e
                     | Inr sequence' \<Rightarrow>
                         structurizeNodes pool conds nodes
                           (sequence',
                            if productOfSums = [] then snd sequence @ [Some node]
                            else if length sequence' = Suc (length (fst sequence))
                            then snd sequence @ [None]
                            else snd sequence)))))"

definition structurizeRegion ::
  "func \<Rightarrow> block \<Rightarrow> block option \<Rightarrow> DumbAllocator \<times> AstGrapher \<Rightarrow>
   failure + stmt \<times> stmt_ref option list \<times> DumbAllocator" where
  "structurizeRegion fn entry exit pg =
     (case buildSumsOfProducts (snd pg) fn (getGraphNodeFromEntry (snd pg) (Some entry))
             (getGraphNodeFromEntry (snd pg) exit) (\<lambda>s. None, fst pg) of
        Inl e \<Rightarrow> Inl e
      | Inr reach \<Rightarrow>
          (case reversePostOrder (snd pg) fn (getGraphNodeFromEntry (snd pg) (Some entry))
                  (getGraphNodeFromEntry (snd pg) exit) of
             Inl e \<Rightarrow> Inl e
           | Inr nodes \<Rightarrow>
               (case structurizeNodes (snd reach) (fst reach) nodes ([], []) of
                  Inl e \<Rightarrow> Inl e
                | Inr sequence \<Rightarrow> Inr (Sequence (fst sequence), snd sequence, snd reach))))"

text \<open>
  The pointer that \<^verbatim>\<open>recursivelySimplifyStatement\<close> returns for the sequence of a
  region. \<^verbatim>\<open>recursivelySimplifySequence\<close> returns the sequence it has allocated, a new
  object, unless that sequence has one statement: then it returns this statement, the
  only one that the statements of the region's sequence have contributed (\<open>contributes\<close>).
  The statement that contributed it is
  \<^item> an \<open>IfElse\<close> made by \<^verbatim>\<open>structurizeRegion\<close>, which the simplifier returns itself and
    no graph node has yet; or
  \<^item> the statement of a node that is not a sequence, which the simplifier returns
    itself, changed in place: the pointer is the node's address; or
  \<^item> the sequence of a block with one statement: the pointer is the address of that
    expression statement, the object after the sequence in the arena.

  In the first case, and when a new sequence is returned, \<open>returnedStatement\<close> is \<open>None\<close>.
  \<open>placeStatement\<close> gives the address of the simplified statement and the arena that
  holds it there: a new object is allocated, an object the arena already has is the
  simplified statement from now on.
\<close>

definition contributes :: "stmt \<Rightarrow> bool" where
  "contributes s =
     (case recursivelySimplifyStatement s of None \<Rightarrow> False | Some asSimplified \<Rightarrow> flattened asSimplified \<noteq> [])"

definition returnedStatement ::
  "DumbAllocator \<Rightarrow> stmt \<Rightarrow> stmt_ref option list \<Rightarrow> stmt \<Rightarrow> stmt_ref option" where
  "returnedStatement pool sequence origins simplified =
     (if isSequence simplified then None
      else (case filter (\<lambda>os. contributes (snd os)) (zip origins (flattened sequence)) of
              [(Some node, s)] \<Rightarrow>
                (if isSequence s
                 then (if s = Sequence [simplified] \<and> stmt_at pool (Suc node) = Some simplified
                       then Some (Suc node) else None)
                 else Some node)
            | other \<Rightarrow> None))"

definition placeStatement :: "stmt_ref option \<Rightarrow> stmt \<Rightarrow> DumbAllocator \<Rightarrow> stmt_ref \<times> DumbAllocator" where
  "placeStatement pointer s pool =
     (case pointer of
        None \<Rightarrow> allocate_stmt s pool
      | Some r \<Rightarrow>
          if r < length (pool_stmts pool)
          then (r, pool\<lparr>pool_stmts := (pool_stmts pool)[r := s]\<rparr>)
          else allocate_stmt s pool)"

text \<open>
  \<^verbatim>\<open>runOnRegion\<close> and \<^verbatim>\<open>runOnLoop\<close>. \<^verbatim>\<open>runOnRegion\<close> registers the pointer that the
  simplifier returns, which can be a statement that a graph node has already;
  \<^verbatim>\<open>runOnLoop\<close> registers the loop it allocates. \<^verbatim>\<open>recursivelyAddBreakStatements\<close> does
  nothing. \<open>registered_ast\<close> is the statement that the grapher resolves a block to.
\<close>

definition runOnRegion ::
  "func \<Rightarrow> block \<Rightarrow> block option \<Rightarrow> DumbAllocator \<times> AstGrapher \<Rightarrow> failure + DumbAllocator \<times> AstGrapher" where
  "runOnRegion fn entry exit pg =
     (case structurizeRegion fn entry exit pg of
        Inl e \<Rightarrow> Inl e
      | Inr sp \<Rightarrow>
          (case recursivelySimplifyStatement (fst sp) of
             None \<Rightarrow> Inl AssertionFailed
           | Some simplified \<Rightarrow>
               (case placeStatement
                       (returnedStatement (snd (snd sp)) (fst sp) (fst (snd sp)) simplified)
                       simplified (snd (snd sp)) of
                  (node, pool') \<Rightarrow> Inr (pool', updateRegion entry exit node (snd pg)))))"

definition runOnLoop ::
  "func \<Rightarrow> block \<Rightarrow> block option \<Rightarrow> DumbAllocator \<times> AstGrapher \<Rightarrow> failure + DumbAllocator \<times> AstGrapher" where
  "runOnLoop fn entry exit pg =
     (case structurizeRegion fn entry exit pg of
        Inl e \<Rightarrow> Inl e
      | Inr sp \<Rightarrow>
          (case recursivelySimplifyStatement (fst sp) of
             None \<Rightarrow> Inl AssertionFailed
           | Some simplified \<Rightarrow>
               (case allocate_stmt (Loop None simplified Endless) (snd (snd sp)) of
                  (endlessLoop, pool') \<Rightarrow> Inr (pool', updateRegion entry exit endlessLoop (snd pg)))))"

definition registered_ast :: "DumbAllocator \<times> AstGrapher \<Rightarrow> block \<Rightarrow> stmt option" where
  "registered_ast pg entry =
     (case nodeByEntry (snd pg) entry of None \<Rightarrow> None | Some r \<Rightarrow> stmt_at (fst pg) r)"

section \<open>The driver\<close>

text \<open>
  \<^verbatim>\<open>findBackEdgeDestinations\<close>: a depth-first walk with the current path in \<open>stack\<close>;
  a successor on the path is a back-edge destination.
\<close>

function findBackEdgeDestinations_rec :: "func \<Rightarrow> block \<Rightarrow> block list \<Rightarrow> block list \<Rightarrow> block list" where
  "findBackEdgeDestinations_rec fn entry stack result =
     foldl (\<lambda>res bb. if bb \<notin> set (stack @ [entry])
                      then findBackEdgeDestinations_rec fn bb (stack @ [entry]) res
                      else List.insert bb res)
       result (successors fn entry)"
  by pat_completeness auto

lemma back_edge_measure:
  assumes "bb \<in> set (successors fn entry)" and "bb \<notin> set (stack @ [entry])"
  shows "card (fn_targets fn - set ((stack @ [entry]) @ [bb])) < card (fn_targets fn - set (stack @ [entry]))"
proof -
  have "bb \<in> fn_targets fn" using assms(1) successors_in_targets by blast
  then have "bb \<in> fn_targets fn - set (stack @ [entry])" using assms(2) by simp
  moreover have "fn_targets fn - set ((stack @ [entry]) @ [bb]) \<subseteq> (fn_targets fn - set (stack @ [entry])) - {bb}"
    by auto
  moreover have "finite (fn_targets fn - set (stack @ [entry]))" by (simp add: fn_targets_def)
  ultimately show ?thesis
    by (meson card_Diff1_less card_mono finite_Diff le_less_trans)
qed

termination findBackEdgeDestinations_rec
  apply (relation "measure (\<lambda>(fn, entry, stack, result). card (fn_targets fn - set (stack @ [entry])))")
   apply simp
  apply (simp only: in_measure prod.case)
  apply (erule (1) back_edge_measure)
  done

declare findBackEdgeDestinations_rec.simps [simp del]

definition findBackEdgeDestinations :: "func \<Rightarrow> block \<Rightarrow> block list" where
  "findBackEdgeDestinations fn entryPoint = findBackEdgeDestinations_rec fn entryPoint [] []"

text \<open>
  The \<^verbatim>\<open>while (domNode != nullptr)\<close> loop of \<^verbatim>\<open>runOnFunction\<close>, for one \<open>entry\<close>. Its
  state is the arena with the grapher, and \<^verbatim>\<open>backNodes\<close>. \<open>node_block\<close> is
  \<^verbatim>\<open>successor ? successor->getBlock() : nullptr\<close>. The loop follows the immediate
  post-dominators, which the analyses supply: \<open>fuel\<close> bounds the number of iterations.
\<close>

definition node_block :: "block option option \<Rightarrow> block option" where
  "node_block n = (case n of None \<Rightarrow> None | Some b \<Rightarrow> b)"

fun climb ::
  "nat \<Rightarrow> (block list \<Rightarrow> nat) \<Rightarrow> func \<Rightarrow> analyses \<Rightarrow> block \<Rightarrow> block option option \<Rightarrow>
   (DumbAllocator \<times> AstGrapher) \<times> block list \<Rightarrow>
   failure + (DumbAllocator \<times> AstGrapher) \<times> block list" where
  "climb fuel pick fn an entry None st = Inr st"
| "climb 0 pick fn an entry (Some blk) st = Inl OutOfFuel"
| "climb (Suc fuel) pick fn an entry (Some blk) st =
     (case getGraphNodeFromEntry (snd (fst st)) blk of
        None \<Rightarrow> Inl NullDereference
      | Some gi \<Rightarrow>
          if \<not> gi < length (nodeStorage (snd (fst st))) then Inl DanglingNode
          else
            (case (if hasExit (nodeStorage (snd (fst st)) ! gi)
                   then Inr (pdt_getNode an (gn_exit (nodeStorage (snd (fst st)) ! gi)))
                   else (case pdt_getNode an (gn_exit (nodeStorage (snd (fst st)) ! gi)) of
                           None \<Rightarrow> Inl NullDereference
                         | Some b \<Rightarrow> Inr (pdt_getIDom an b))) of
               Inl e \<Rightarrow> Inl e
             | Inr successor \<Rightarrow>
                 if isRegion pick fn an entry (node_block successor)
                 then
                   (if entry \<in> set (snd st)
                    then (case runOnLoop fn entry (node_block successor) (fst st) of
                            Inl e \<Rightarrow> Inl e
                          | Inr pg \<Rightarrow> climb fuel pick fn an entry successor (pg, removeAll entry (snd st)))
                    else (case runOnRegion fn entry (node_block successor) (fst st) of
                            Inl e \<Rightarrow> Inl e
                          | Inr pg \<Rightarrow> climb fuel pick fn an entry successor (pg, snd st)))
                 else if \<not> dominates an entry (node_block successor) then Inr st
                 else climb fuel pick fn an entry successor st))"

text \<open>
  The \<^verbatim>\<open>for\<close> loop over the blocks in post-order. \<^verbatim>\<open>domNode->getIDom()\<close> before the
  inner loop dereferences \<^verbatim>\<open>domNode\<close>. The inner loop gets two iterations more than the
  function has blocks.
\<close>

definition climb_fuel :: "func \<Rightarrow> nat" where
  "climb_fuel fn = Suc (Suc (length (fn_blocks fn)))"

fun visitBlocks ::
  "(block list \<Rightarrow> nat) \<Rightarrow> func \<Rightarrow> analyses \<Rightarrow> block list \<Rightarrow>
   (DumbAllocator \<times> AstGrapher) \<times> block list \<Rightarrow>
   failure + (DumbAllocator \<times> AstGrapher) \<times> block list" where
  "visitBlocks pick fn an [] st = Inr st"
| "visitBlocks pick fn an (entry # rest) st =
     (case pdt_getNode an (Some entry) of
        None \<Rightarrow> Inl NullDereference
      | Some blk \<Rightarrow>
          (case climb (climb_fuel fn) pick fn an entry (Some blk)
                  (snd (addBasicBlock fn entry (fst st)), snd st) of
             Inl e \<Rightarrow> Inl e
           | Inr st' \<Rightarrow> visitBlocks pick fn an rest st'))"

text \<open>
  The pass object: the arena, the grapher and \<^verbatim>\<open>astPerFunction\<close>, keyed by function.
  \<^verbatim>\<open>runOnFunction\<close> returns false on every path; the model returns the pass object.
  The \<^verbatim>\<open>dump()\<close> at its end dereferences the graph node of the entry block.
  \<^verbatim>\<open>getAnalysis\<close> gives the analyses of a function.
\<close>

record AstBackEnd =
  be_pool :: DumbAllocator
  be_grapher :: AstGrapher
  astPerFunction :: "nat \<Rightarrow> stmt_ref option"

definition getEntryBlock :: "func \<Rightarrow> block" where
  "getEntryBlock fn = fst (hd (fn_blocks fn))"

definition runOnFunction ::
  "(block list \<Rightarrow> nat) \<Rightarrow> analyses \<Rightarrow> func \<Rightarrow> AstBackEnd \<Rightarrow> failure + AstBackEnd" where
  "runOnFunction pick an fn be =
     (if astPerFunction be (fn_id fn) \<noteq> None then Inr be
      else if fn_blocks fn = [] then Inr be
      else (case visitBlocks pick fn an (post_order an)
                   ((be_pool be, be_grapher be), findBackEdgeDestinations fn (getEntryBlock fn)) of
              Inl e \<Rightarrow> Inl e
            | Inr st \<Rightarrow>
                (case getGraphNodeFromEntry (snd (fst st)) (Some (getEntryBlock fn)) of
                   None \<Rightarrow> Inl NullDereference
                 | Some n \<Rightarrow> Inr (be\<lparr>be_pool := fst (fst st), be_grapher := snd (fst st)\<rparr>))))"

fun runOnFunctions ::
  "(block list \<Rightarrow> nat) \<Rightarrow> (func \<Rightarrow> analyses) \<Rightarrow> func list \<Rightarrow> AstBackEnd \<Rightarrow> failure + AstBackEnd" where
  "runOnFunctions pick getAnalysis [] be = Inr be"
| "runOnFunctions pick getAnalysis (fn # rest) be =
     (case runOnFunction pick (getAnalysis fn) fn be of
        Inl e \<Rightarrow> Inl e
      | Inr be' \<Rightarrow> runOnFunctions pick getAnalysis rest be')"

definition runOnModule ::
  "(block list \<Rightarrow> nat) \<Rightarrow> (func \<Rightarrow> analyses) \<Rightarrow> func list \<Rightarrow> AstBackEnd \<Rightarrow> failure + AstBackEnd" where
  "runOnModule pick getAnalysis m be =
     runOnFunctions pick getAnalysis m
       (be\<lparr>be_pool := empty_pool, astPerFunction := (\<lambda>f. None), be_grapher := new_grapher\<rparr>)"

text \<open>Functions of one block, which ends in a return, and their analyses.\<close>

definition single_block :: "nat \<Rightarrow> block \<Rightarrow> irvalue \<Rightarrow> func" where
  "single_block i b v = \<lparr>fn_id = i, fn_blocks = [(b, [Inst v Plain, Inst (Suc v) Ret])]\<rparr>"

definition single_block_an :: "func \<Rightarrow> analyses" where
  "single_block_an fn =
     \<lparr>dominates = (\<lambda>a b. b = Some a \<or> b = None),
      postDominates = (\<lambda>a b. a = b),
      pdt_hasNode = (\<lambda>b. b = Some (getEntryBlock fn)),
      pdt_getIDom = (\<lambda>b. None),
      post_order = [getEntryBlock fn]\<rparr>"

definition blank_backend :: AstBackEnd where
  "blank_backend = \<lparr>be_pool = empty_pool, be_grapher = new_grapher, astPerFunction = (\<lambda>f. None)\<rparr>"

definition first_fn :: func where
  "first_fn = single_block 0 0 20"

definition second_fn :: func where
  "second_fn = single_block 2 5 30"

text \<open>
  A function whose block 6 is reached from the entry block 0 on three paths, through the
  branches on the values 7, 8, 9 and 10, with its analyses; \<open>nested_before_entry\<close> is the
  arena and the grapher when the driver has dealt with the other blocks and has just
  added block 0; \<open>nested_guard\<close> is a condition used further down.
\<close>

definition nested :: func where
  "nested = \<lparr>fn_id = 3, fn_blocks =
     [(0, [Inst 100 Plain, Inst 101 (CondBr 7 2 3)]),
      (2, [Inst 102 Plain, Inst 103 (CondBr 8 6 4)]),
      (3, [Inst 104 Plain, Inst 105 (CondBr 10 6 5)]),
      (4, [Inst 106 Plain, Inst 107 (CondBr 9 6 5)]),
      (5, [Inst 108 Plain, Inst 109 (Br 8)]),
      (6, [Inst 110 Plain, Inst 111 (Br 8)]),
      (8, [Inst 112 Ret])]\<rparr>"

definition nested_an :: analyses where
  "nested_an = \<lparr>dominates = (\<lambda>a b. b = Some a \<or> a = 0 \<or> (a = 2 \<and> b = Some 4) \<or> b = None),
     postDominates = (\<lambda>a b. a = b \<or> a = 8),
     pdt_hasNode = (\<lambda>b. b \<in> {Some 0, Some 2, Some 3, Some 4, Some 5, Some 6, Some 8}),
     pdt_getIDom = (\<lambda>b. if b \<in> {Some 0, Some 2, Some 3, Some 4, Some 5, Some 6}
                         then Some (Some 8) else None),
     post_order = [8, 6, 5, 4, 2, 3, 0]\<rparr>"

definition nested_before_entry :: "DumbAllocator \<times> AstGrapher" where
  "nested_before_entry =
     snd (addBasicBlock nested 0
       (fst (projr (visitBlocks (\<lambda>tv. 0) nested nested_an [8, 6, 5, 4, 2, 3]
          ((empty_pool, new_grapher), findBackEdgeDestinations nested 0)))))"

definition nested_guard :: expr where
  "nested_guard =
     Binary ShortCircuitAnd
       (Binary ShortCircuitOr (Binary ShortCircuitOr (Value 7) (Value 7)) (Value 10))
       (Binary ShortCircuitAnd (UnaryNot (Value 8))
         (Binary ShortCircuitAnd
           (Binary ShortCircuitOr (Binary ShortCircuitOr (Value 7) (UnaryNot (Value 8))) (Value 10))
           (Binary ShortCircuitAnd (Value 9)
             (Binary ShortCircuitAnd
               (Binary ShortCircuitOr (Binary ShortCircuitOr (Value 7) (Value 9)) (Value 10))
               (Binary ShortCircuitAnd (Value 8)
                 (Binary ShortCircuitAnd
                   (Binary ShortCircuitOr (Binary ShortCircuitOr (Value 8) (Value 7)) (Value 10))
                   (Binary ShortCircuitAnd (UnaryNot (Value 7))
                     (Binary ShortCircuitAnd (Value 10)
                       (Binary ShortCircuitAnd
                         (Binary ShortCircuitOr (Binary ShortCircuitOr (Value 8) (Value 9))
                            (UnaryNot (Value 7)))
                         (Binary ShortCircuitOr (Binary ShortCircuitOr (Value 8) (Value 9))
                            (Value 10)))))))))))"

text \<open>
  A function that branches on the value 7 in block 0 and again in the blocks 2 and 3,
  which both lead to the blocks 4 and 5, with its analyses; \<open>thrice_before_entry\<close> is
  the arena and the grapher when the driver has dealt with the other blocks and has just
  added block 0.
\<close>

definition thrice :: func where
  "thrice = \<lparr>fn_id = 5, fn_blocks =
     [(0, [Inst 60 Plain, Inst 61 (CondBr 7 2 3)]),
      (2, [Inst 62 Plain, Inst 63 (CondBr 7 5 4)]),
      (3, [Inst 64 Plain, Inst 65 (CondBr 7 4 5)]),
      (4, [Inst 66 Plain, Inst 67 (Br 8)]),
      (5, [Inst 68 Plain, Inst 69 (Br 8)]),
      (8, [Inst 70 Ret])]\<rparr>"

definition thrice_an :: analyses where
  "thrice_an = \<lparr>dominates = (\<lambda>a b. b = Some a \<or> a = 0 \<or> b = None),
     postDominates = (\<lambda>a b. a = b \<or> a = 8),
     pdt_hasNode = (\<lambda>b. b \<in> {Some 0, Some 2, Some 3, Some 4, Some 5, Some 8}),
     pdt_getIDom = (\<lambda>b. if b \<in> {Some 0, Some 2, Some 3, Some 4, Some 5}
                         then Some (Some 8) else None),
     post_order = [8, 5, 4, 2, 3, 0]\<rparr>"

definition thrice_before_entry :: "DumbAllocator \<times> AstGrapher" where
  "thrice_before_entry =
     snd (addBasicBlock thrice 0
       (fst (projr (visitBlocks (\<lambda>tv. 0) thrice thrice_an [8, 5, 4, 2, 3]
          ((empty_pool, new_grapher), findBackEdgeDestinations thrice 0)))))"

text \<open>
  The diamond once its region from block 0 to block 4 is structured, and the
  conditions of the walk over the diamond from the node of block 0 to the node of
  block 4. In \<open>chain\<close>, block 0 only branches to block 2, which only returns.
\<close>

definition diamond_folded :: "DumbAllocator \<times> AstGrapher" where
  "diamond_folded = projr (runOnRegion diamond 0 (Some 4) diamond_grapher)"

definition diamond_conditions :: "conditions \<times> DumbAllocator" where
  "diamond_conditions =
     projr (build (snd diamond_grapher) diamond (Some 3) [] [Some 0] (\<lambda>s. None, fst diamond_grapher))"

definition chain :: func where
  "chain = \<lparr>fn_id = 4, fn_blocks = [(0, [Inst 50 (Br 2)]), (2, [Inst 51 Ret])]\<rparr>"

definition chain_an :: analyses where
  "chain_an = \<lparr>dominates = (\<lambda>a b. b = Some a \<or> a = 0 \<or> b = None),
     postDominates = (\<lambda>a b. a = b \<or> a = 2),
     pdt_hasNode = (\<lambda>b. b \<in> {Some 0, Some 2}),
     pdt_getIDom = (\<lambda>b. if b = Some 0 then Some (Some 2) else None),
     post_order = [2, 0]\<rparr>"

text \<open>
  What is kept from one state of the arena and the grapher to a later one:
  \<^item> every address of the arena is still one, and the statement at it is the same,
    unless the statement has been registered again, for a graph node added since;
  \<^item> the graph nodes are still in the node storage, in their places, with the nodes
    added since after them;
  \<^item> a block that had an entry in \<open>nodeByEntry\<close> still has one;
  \<^item> the entry of a statement in \<open>graphNodeByAstNode\<close> is what it was, or it is a graph
    node added since.
\<close>

definition grapher_extends :: "DumbAllocator \<times> AstGrapher \<Rightarrow> DumbAllocator \<times> AstGrapher \<Rightarrow> bool" where
  "grapher_extends pg pg' =
     (length (pool_stmts (fst pg)) \<le> length (pool_stmts (fst pg')) \<and>
      (\<forall>r < length (pool_stmts (fst pg)).
         pool_stmts (fst pg') ! r = pool_stmts (fst pg) ! r \<or>
         (\<exists>k \<ge> length (nodeStorage (snd pg)). graphNodeByAstNode (snd pg') r = Some k)) \<and>
      (\<exists>added. nodeStorage (snd pg') = nodeStorage (snd pg) @ added) \<and>
      (\<forall>b. nodeByEntry (snd pg) b \<noteq> None \<longrightarrow> nodeByEntry (snd pg') b \<noteq> None) \<and>
      (\<forall>s. graphNodeByAstNode (snd pg') s = graphNodeByAstNode (snd pg) s \<or>
           (\<exists>k \<ge> length (nodeStorage (snd pg)). graphNodeByAstNode (snd pg') s = Some k)))"

section \<open>Correctness of the region predicate\<close>

lemma region_inv_step:
  assumes inv: "region_inv fn an entry exit P toVisit visited"
    and bb: "bb \<in> set toVisit" and ok: "region_ok an entry exit bb"
  shows "region_inv fn an entry exit (insert bb P)
           (insert_unvisited (insert (Some bb) visited) (successors fn bb) (removeAll bb toVisit))
           (insert (Some bb) visited)"
proof -
  have bbR: "bb \<in> region_blocks fn entry exit" using inv bb by (auto simp: region_inv_def)
  have vis: "visited = insert exit (Some ` P)" using inv by (simp add: region_inv_def)
  have 1: "entry \<in> insert bb P \<union> set (insert_unvisited (insert (Some bb) visited) (successors fn bb) (removeAll bb toVisit))"
    using inv by (auto simp: region_inv_def set_insert_unvisited)
  have 2: "insert bb P \<union> set (insert_unvisited (insert (Some bb) visited) (successors fn bb) (removeAll bb toVisit))
             \<subseteq> region_blocks fn entry exit"
    using inv bbR vis by (auto simp: region_inv_def set_insert_unvisited intro: region_succ)
  have 3: "\<forall>b \<in> insert bb P. region_ok an entry exit b"
    using inv ok by (auto simp: region_inv_def)
  have 4: "\<forall>b \<in> insert bb P. \<forall>s \<in> set (successors fn b). Some s \<noteq> exit \<longrightarrow>
             s \<in> insert bb P \<or> s \<in> set (insert_unvisited (insert (Some bb) visited) (successors fn bb) (removeAll bb toVisit))"
  proof (intro ballI impI)
    fix b s assume b: "b \<in> insert bb P" and s: "s \<in> set (successors fn b)" and ne: "Some s \<noteq> exit"
    show "s \<in> insert bb P \<or> s \<in> set (insert_unvisited (insert (Some bb) visited) (successors fn bb) (removeAll bb toVisit))"
    proof (cases "b = bb")
      case True
      then show ?thesis using s ne vis by (auto simp: set_insert_unvisited)
    next
      case False
      then have "b \<in> P" using b by simp
      then have "s \<in> P \<or> s \<in> set toVisit" using inv s ne by (auto simp: region_inv_def)
      then show ?thesis by (auto simp: set_insert_unvisited)
    qed
  qed
  have 5: "insert (Some bb) visited = insert exit (Some ` insert bb P)" using vis by auto
  show ?thesis unfolding region_inv_def using 1 2 3 4 5 by blast
qed

lemma region_inv_done:
  assumes inv: "region_inv fn an entry exit P [] visited"
  shows "region_blocks fn entry exit \<subseteq> P"
proof
  fix b assume "b \<in> region_blocks fn entry exit"
  then show "b \<in> P"
  proof (induction rule: region_blocks.induct)
    case region_entry
    then show ?case using inv by (simp add: region_inv_def)
  next
    case (region_succ b s)
    then show ?case using inv by (auto simp: region_inv_def)
  qed
qed

lemma isRegion_loop_correct:
  "region_inv fn an entry exit P toVisit visited \<Longrightarrow>
   isRegion_loop pick fn an entry exit toVisit visited =
     (\<forall>b \<in> region_blocks fn entry exit. region_ok an entry exit b)"
proof (induction pick fn an entry exit toVisit visited arbitrary: P rule: isRegion_loop.induct)
  case (1 pick fn an entry exit toVisit visited)
  show ?case
  proof (cases "toVisit = []")
    case True
    with 1(2) have "region_blocks fn entry exit \<subseteq> P" by (auto dest: region_inv_done)
    moreover have "\<forall>b \<in> P. region_ok an entry exit b" using 1(2) by (simp add: region_inv_def)
    ultimately show ?thesis using True by (auto simp: isRegion_loop_Nil)
  next
    case False
    let ?bb = "toVisit ! (pick toVisit mod length toVisit)"
    have bb: "?bb \<in> set toVisit" using False by (rule pick_in_set)
    show ?thesis
    proof (cases "region_ok an entry exit ?bb")
      case True
      have "region_inv fn an entry exit (insert ?bb P)
              (insert_unvisited (insert (Some ?bb) visited) (successors fn ?bb) (removeAll ?bb toVisit))
              (insert (Some ?bb) visited)"
        using 1(2) bb True by (rule region_inv_step)
      from 1(1) [OF False refl True this] show ?thesis
        using False True by (simp add: isRegion_loop_step)
    next
      case no: False
      have "?bb \<in> region_blocks fn entry exit" using 1(2) bb by (auto simp: region_inv_def)
      then have "\<not> (\<forall>b \<in> region_blocks fn entry exit. region_ok an entry exit b)" using no by blast
      then show ?thesis using False no by (simp add: isRegion_loop_step)
    qed
  qed
qed

lemma region_inv_init: "region_inv fn an entry exit {} [entry] {exit}"
  by (simp add: region_inv_def region_entry)

lemma exit_not_in_region:
  "b \<in> region_blocks fn entry exit \<Longrightarrow> b \<noteq> entry \<Longrightarrow> Some b \<noteq> exit"
  by (induction rule: region_blocks.induct) auto

text \<open>
  C1. \<open>isRegion entry exit\<close> holds exactly when every block reachable from \<open>entry\<close>
  without crossing \<open>exit\<close> is dominated by \<open>entry\<close> and, unless \<open>exit\<close> is null,
  post-dominated by \<open>exit\<close>; a null \<open>exit\<close> post-dominates everything; an \<open>exit\<close>
  other than \<open>entry\<close> is not among the blocks examined; and the loop answers false at the
  first block it takes from \<open>toVisit\<close> that violates the condition. This holds for
  every order in which the unordered set hands out its elements.
\<close>

theorem isRegion_characterisation:
  "(isRegion pick fn an entry exit =
      (\<forall>b \<in> region_blocks fn entry exit.
         dominates an entry (Some b) \<and> (exit = None \<or> postDominates an (the exit) b)))
   \<and> (\<forall>x. exit = Some x \<and> x \<noteq> entry \<longrightarrow> x \<notin> region_blocks fn entry exit)
   \<and> (\<forall>toVisit visited. toVisit \<noteq> [] \<and>
          \<not> region_ok an entry exit (toVisit ! (pick toVisit mod length toVisit)) \<longrightarrow>
          \<not> isRegion_loop pick fn an entry exit toVisit visited)"
proof (intro conjI allI impI)
  have "region_ok an entry exit b =
          (dominates an entry (Some b) \<and> (exit = None \<or> postDominates an (the exit) b))" for b
    by (cases exit) (simp_all add: region_ok_def)
  then show "isRegion pick fn an entry exit =
      (\<forall>b \<in> region_blocks fn entry exit.
         dominates an entry (Some b) \<and> (exit = None \<or> postDominates an (the exit) b))"
    using isRegion_loop_correct [OF region_inv_init, of pick fn an entry exit]
    by (simp add: isRegion_def)
next
  fix x assume "exit = Some x \<and> x \<noteq> entry"
  then show "x \<notin> region_blocks fn entry exit"
    using exit_not_in_region [of x fn entry exit] by blast
next
  fix toVisit visited
  assume "toVisit \<noteq> [] \<and> \<not> region_ok an entry exit (toVisit ! (pick toVisit mod length toVisit))"
  then show "\<not> isRegion_loop pick fn an entry exit toVisit visited"
    by (simp add: isRegion_loop_step)
qed

lemma diamond_successors:
  "successors diamond 0 = [2, 3]" "successors diamond 2 = [4]"
  "successors diamond 3 = [4]" "successors diamond 4 = []"
  by (simp_all add: successors_def blockInsts_def diamond_def insts_successors_def
      insts_terminator_def)

lemma diamond_isRegion: "isRegion (\<lambda>tv. 0) diamond diamond_an 0 (Some 4)"
  by (simp add: isRegion_def isRegion_loop_step isRegion_loop_Nil diamond_successors
      region_ok_def diamond_an_def)

lemma diamond_not_isRegion: "\<not> isRegion (\<lambda>tv. 0) diamond diamond_an 2 (Some 3)"
  by (simp add: isRegion_def isRegion_loop_step isRegion_loop_Nil diamond_successors
      region_ok_def diamond_an_def)

theorem isRegion_characterisation_witness:
  "isRegion (\<lambda>tv. 0) diamond diamond_an 0 (Some 4)
   \<and> 3 \<in> region_blocks diamond 0 (Some 4)
   \<and> dominates diamond_an 0 (Some 3) \<and> postDominates diamond_an 4 3
   \<and> 4 \<notin> region_blocks diamond 0 (Some 4)
   \<and> \<not> isRegion (\<lambda>tv. 0) diamond diamond_an 2 (Some 3)
   \<and> \<not> isRegion_loop (\<lambda>tv. 0) diamond diamond_an 2 (Some 3) [2] {Some 3}"
proof -
  note c = isRegion_characterisation [of "\<lambda>tv. 0" diamond diamond_an 0 "Some 4"]
  note d = isRegion_characterisation [of "\<lambda>tv. 0" diamond diamond_an 2 "Some 3"]
  have three: "3 \<in> region_blocks diamond 0 (Some 4)"
    by (rule region_succ [of 0]) (simp_all add: region_entry diamond_successors)
  have "\<forall>b \<in> region_blocks diamond 0 (Some 4).
          dominates diamond_an 0 (Some b) \<and> (Some (4::nat) = None \<or> postDominates diamond_an (the (Some 4)) b)"
    using c diamond_isRegion by blast
  with three have dp: "dominates diamond_an 0 (Some 3) \<and> postDominates diamond_an 4 3" by auto
  have four: "4 \<notin> region_blocks diamond 0 (Some 4)" using c by simp
  have "\<not> region_ok diamond_an 2 (Some 3) ([2] ! ((\<lambda>tv. 0) [2] mod length [2::nat]))"
    by (simp add: region_ok_def diamond_an_def)
  then have "\<not> isRegion_loop (\<lambda>tv. 0) diamond diamond_an 2 (Some 3) [2] {Some 3}"
    using conjunct2 [OF conjunct2 [OF d]] by (simp only: list.simps simp_thms)
  then show ?thesis using three dp four diamond_isRegion diamond_not_isRegion by (simp only: simp_thms)
qed

section \<open>Properties of the AST simplification\<close>

lemma strip_negations_not_negated:
  "strip_negations c a b = (c', a', b') \<Longrightarrow> \<not> isUnaryNot c'"
  by (induction c a b rule: strip_negations.induct) auto

lemma ifelse_normal_flattened:
  "ifelse_normal s \<Longrightarrow> \<forall>x \<in> set (flattened s). ifelse_normal x"
  by (cases s) auto

lemma loopPatterns_eq:
  "loopPatterns condition loopBody pos =
     (if isEndless pos then
        (case loopBody of
           Sequence statements \<Rightarrow>
             (if statements = [] then None
              else (case last statements of
                      IfElse c ifBody elseBody \<Rightarrow>
                        (if ifBody = Break
                         then Some (Loop (Some (logicalNegate c)) (Sequence (butlast statements)) PostTested)
                         else Some (Loop condition loopBody pos))
                    | other \<Rightarrow> Some (Loop condition loopBody pos)))
         | other \<Rightarrow> Some (Loop condition loopBody pos))
      else Some (Loop condition loopBody pos))"
proof -
  have post: "loopPatterns c b PostTested = Some (Loop c b PostTested)" for c b
    by (subst loopPatterns.simps) simp
  show ?thesis
    by (subst loopPatterns.simps) (simp only: post)
qed

lemma ifelse_normal_loopPatterns:
  "loopPatterns c b p = Some t \<Longrightarrow> ifelse_normal b \<Longrightarrow> ifelse_normal t"
  by (auto simp: loopPatterns_eq split: if_splits stmt.splits dest!: in_set_butlastD)

lemma ifelse_normal_simplify:
  "(recursivelySimplifyStatement s = Some t \<longrightarrow> ifelse_normal t)"
  "(simplifyStatements ss = Some ts \<longrightarrow> (\<forall>x \<in> set ts. ifelse_normal x))"
proof (induction s and ss arbitrary: t and ts rule: recursivelySimplifyStatement_simplifyStatements.induct)
  case (1 statements)
  show ?case
  proof
    assume a: "recursivelySimplifyStatement (Sequence statements) = Some t"
    then obtain simplified where s: "simplifyStatements statements = Some simplified"
      and t: "t = (if length simplified = 1 then simplified ! 0 else Sequence simplified)"
      by (auto split: option.splits)
    have all: "\<forall>x \<in> set simplified. ifelse_normal x" using 1 s by blast
    show "ifelse_normal t"
    proof (cases "length simplified = 1")
      case True
      then have "simplified ! 0 \<in> set simplified" by simp
      with all t True show ?thesis by simp
    next
      case False
      with all t show ?thesis by simp
    qed
  qed
next
  case (2 condition ifBody)
  show ?case
  proof
    assume a: "recursivelySimplifyStatement (IfElse condition ifBody None) = Some t"
    then obtain ifBody' where s: "recursivelySimplifyStatement ifBody = Some ifBody'"
      by (auto split: option.splits)
    have n: "ifelse_normal ifBody'" using 2 s by blast
    show "ifelse_normal t" using a s n
      by (auto split: stmt.splits option.splits)
  qed
next
  case (3 condition ifBody elseBody)
  show ?case
  proof
    assume a: "recursivelySimplifyStatement (IfElse condition ifBody (Some elseBody)) = Some t"
    obtain c x y where st: "strip_negations condition ifBody elseBody = (c, x, y)"
      by (cases "strip_negations condition ifBody elseBody") auto
    from a st obtain x' y' where x': "recursivelySimplifyStatement x = Some x'"
      and y': "recursivelySimplifyStatement y = Some y'" and t: "t = IfElse c x' (Some y')"
      by (auto split: option.splits)
    have "ifelse_normal x'" using 3(1) [OF st [symmetric] refl] x' by blast
    moreover have "ifelse_normal y'" using 3(2) [OF st [symmetric] refl x'] y' by blast
    ultimately show "ifelse_normal t" using t strip_negations_not_negated [OF st] by simp
  qed
next
  case (4 condition loopBody pos)
  show ?case
  proof
    assume a: "recursivelySimplifyStatement (Loop condition loopBody pos) = Some t"
    then obtain b' where s: "recursivelySimplifyStatement loopBody = Some b'"
      and l: "loopPatterns condition b' pos = Some t"
      by (auto split: option.splits)
    have "ifelse_normal b'" using 4 s by blast
    then show "ifelse_normal t" using l by (rule ifelse_normal_loopPatterns [rotated])
  qed
next
  case (5 e) show ?case by auto
next
  case 6 show ?case by auto
next
  case 7 show ?case by auto
next
  case (8 sub rest)
  show ?case
  proof
    assume a: "simplifyStatements (sub # rest) = Some ts"
    then obtain s' r' where s: "recursivelySimplifyStatement sub = Some s'"
      and r: "simplifyStatements rest = Some r'" and ts: "ts = flattened s' @ r'"
      by (auto split: option.splits)
    have "ifelse_normal s'" using 8(1) s by blast
    moreover have "\<forall>x \<in> set r'. ifelse_normal x" using 8(2) [OF s] r by blast
    ultimately show "\<forall>x \<in> set ts. ifelse_normal x"
      using ts ifelse_normal_flattened [of s'] by auto
  qed
qed

lemma simplified_form_flattened:
  "simplified_form s \<Longrightarrow> \<forall>x \<in> set (flattened s). simplified_form x \<and> \<not> isSequence x"
  by (cases s) auto

lemma simplified_form_loopPatterns:
  assumes l: "loopPatterns c b p = Some t" and sf: "simplified_form b"
  shows "simplified_form t"
proof (cases "isEndless p")
  case False
  then have "t = Loop c b p" using l by (simp add: loopPatterns_eq)
  then show ?thesis using sf False by (cases b) auto
next
  case True
  show ?thesis
  proof (cases b)
    case (Sequence statements)
    then have ne: "statements \<noteq> []" using l True by (auto simp: loopPatterns_eq)
    have elems: "\<forall>s \<in> set statements. simplified_form s \<and> \<not> isSequence s"
      and len: "length statements \<noteq> 1" using sf Sequence by auto
    show ?thesis
    proof (cases "isBreakIf (last statements)")
      case True
      then obtain ic ie where "last statements = IfElse ic Break ie"
        by (cases "last statements") auto
      then have "t = Loop (Some (logicalNegate ic)) (Sequence (butlast statements)) PostTested"
        using l \<open>isEndless p\<close> Sequence ne by (simp add: loopPatterns_eq)
      then show ?thesis using elems by (auto dest!: in_set_butlastD)
    next
      case False
      then have "t = Loop c b p"
        using l \<open>isEndless p\<close> Sequence ne
        by (cases "last statements") (auto simp: loopPatterns_eq)
      then show ?thesis using elems len ne False Sequence by simp
    qed
  next
    case (Expression e)
    then show ?thesis using l True sf by (auto simp: loopPatterns_eq)
  next
    case (IfElse ic ib ie)
    then show ?thesis using l True sf by (auto simp: loopPatterns_eq)
  next
    case (Loop lc lb lp)
    then show ?thesis using l True sf by (auto simp: loopPatterns_eq)
  next
    case Break
    then show ?thesis using l True sf by (auto simp: loopPatterns_eq)
  qed
qed

lemma simplified_form_simplify:
  "(recursivelySimplifyStatement s = Some t \<longrightarrow> simplified_form t)"
  "(simplifyStatements ss = Some ts \<longrightarrow> (\<forall>x \<in> set ts. simplified_form x \<and> \<not> isSequence x))"
proof (induction s and ss arbitrary: t and ts rule: recursivelySimplifyStatement_simplifyStatements.induct)
  case (1 statements)
  show ?case
  proof
    assume a: "recursivelySimplifyStatement (Sequence statements) = Some t"
    then obtain simplified where s: "simplifyStatements statements = Some simplified"
      and t: "t = (if length simplified = 1 then simplified ! 0 else Sequence simplified)"
      by (auto split: option.splits)
    have all: "\<forall>x \<in> set simplified. simplified_form x \<and> \<not> isSequence x" using 1 s by blast
    show "simplified_form t"
    proof (cases "length simplified = 1")
      case True
      then have "simplified ! 0 \<in> set simplified" by simp
      with all t True show ?thesis by simp
    next
      case False
      with all t show ?thesis by simp
    qed
  qed
next
  case (2 condition ifBody)
  show ?case
  proof
    assume a: "recursivelySimplifyStatement (IfElse condition ifBody None) = Some t"
    then obtain ifBody' where s: "recursivelySimplifyStatement ifBody = Some ifBody'"
      by (auto split: option.splits)
    have n: "simplified_form ifBody'" using 2 s by blast
    show "simplified_form t"
    proof (cases "isIfWithoutElse ifBody'")
      case True
      then obtain cc ci where i: "ifBody' = IfElse cc ci None"
        by (cases ifBody' rule: isIfWithoutElse.cases) auto
      then have "t = IfElse (Binary ShortCircuitAnd condition cc) ci None" using a s by simp
      then show ?thesis using n i by simp
    next
      case False
      then have "t = IfElse condition ifBody' None" using a s
        by (cases ifBody' rule: isIfWithoutElse.cases) auto
      then show ?thesis using n False by simp
    qed
  qed
next
  case (3 condition ifBody elseBody)
  show ?case
  proof
    assume a: "recursivelySimplifyStatement (IfElse condition ifBody (Some elseBody)) = Some t"
    obtain c x y where st: "strip_negations condition ifBody elseBody = (c, x, y)"
      by (cases "strip_negations condition ifBody elseBody") auto
    from a st obtain x' y' where x': "recursivelySimplifyStatement x = Some x'"
      and y': "recursivelySimplifyStatement y = Some y'" and t: "t = IfElse c x' (Some y')"
      by (auto split: option.splits)
    have "simplified_form x'" using 3(1) [OF st [symmetric] refl] x' by blast
    moreover have "simplified_form y'" using 3(2) [OF st [symmetric] refl x'] y' by blast
    ultimately show "simplified_form t" using t strip_negations_not_negated [OF st] by simp
  qed
next
  case (4 condition loopBody pos)
  show ?case
  proof
    assume a: "recursivelySimplifyStatement (Loop condition loopBody pos) = Some t"
    then obtain b' where s: "recursivelySimplifyStatement loopBody = Some b'"
      and l: "loopPatterns condition b' pos = Some t"
      by (auto split: option.splits)
    have "simplified_form b'" using 4 s by blast
    then show "simplified_form t" using l by (rule simplified_form_loopPatterns [rotated])
  qed
next
  case (5 e) show ?case by auto
next
  case 6 show ?case by auto
next
  case 7 show ?case by auto
next
  case (8 sub rest)
  show ?case
  proof
    assume a: "simplifyStatements (sub # rest) = Some ts"
    then obtain s' r' where s: "recursivelySimplifyStatement sub = Some s'"
      and r: "simplifyStatements rest = Some r'" and ts: "ts = flattened s' @ r'"
      by (auto split: option.splits)
    have "simplified_form s'" using 8(1) s by blast
    moreover have "\<forall>x \<in> set r'. simplified_form x \<and> \<not> isSequence x" using 8(2) [OF s] r by blast
    ultimately show "\<forall>x \<in> set ts. simplified_form x \<and> \<not> isSequence x"
      using ts simplified_form_flattened [of s'] by auto
  qed
qed


lemma strip_negations_id: "\<not> isUnaryNot c \<Longrightarrow> strip_negations c a b = (c, a, b)"
  by (cases c) auto

lemma flattened_id: "\<not> isSequence s \<Longrightarrow> flattened s = [s]"
  by (cases s) auto

lemma loopPatterns_stable:
  assumes sf: "simplified_form (Loop c b p)"
  shows "loopPatterns c b p = Some (Loop c b p)"
proof (cases "isEndless p")
  case False
  then show ?thesis by (simp add: loopPatterns_eq)
next
  case True
  show ?thesis
  proof (cases b)
    case (Sequence statements)
    then have ne: "statements \<noteq> []" and nb: "\<not> isBreakIf (last statements)"
      using sf True by auto
    then show ?thesis using True Sequence
      by (cases "last statements") (auto simp: loopPatterns_eq)
  qed (use True in \<open>auto simp: loopPatterns_eq\<close>)
qed

lemma loop_body_simplified_form:
  assumes sf: "simplified_form (Loop c b p)" and ns: "\<not> isSingletonSequence b"
  shows "simplified_form b"
  using assms by (cases b) auto

lemma simplify_stable:
  "(simplified_form s \<longrightarrow> no_singleton_loop_body s \<longrightarrow> recursivelySimplifyStatement s = Some s)"
  "((\<forall>x \<in> set ss. simplified_form x \<and> \<not> isSequence x \<and> no_singleton_loop_body x) \<longrightarrow>
      simplifyStatements ss = Some ss)"
proof (induction s and ss rule: recursivelySimplifyStatement_simplifyStatements.induct)
  case (1 statements)
  show ?case
  proof (intro impI)
    assume sf: "simplified_form (Sequence statements)" and ns: "no_singleton_loop_body (Sequence statements)"
    then have "simplifyStatements statements = Some statements" using 1 by simp
    then show "recursivelySimplifyStatement (Sequence statements) = Some (Sequence statements)"
      using sf by simp
  qed
next
  case (2 condition ifBody)
  show ?case
  proof (intro impI)
    assume sf: "simplified_form (IfElse condition ifBody None)"
      and ns: "no_singleton_loop_body (IfElse condition ifBody None)"
    then have "recursivelySimplifyStatement ifBody = Some ifBody" using 2 by simp
    moreover have "\<not> isIfWithoutElse ifBody" using sf by simp
    ultimately show "recursivelySimplifyStatement (IfElse condition ifBody None) = Some (IfElse condition ifBody None)"
      by (cases ifBody rule: isIfWithoutElse.cases) auto
  qed
next
  case (3 condition ifBody elseBody)
  show ?case
  proof (intro impI)
    assume sf: "simplified_form (IfElse condition ifBody (Some elseBody))"
      and ns: "no_singleton_loop_body (IfElse condition ifBody (Some elseBody))"
    have st: "strip_negations condition ifBody elseBody = (condition, ifBody, elseBody)"
      using sf by (simp add: strip_negations_id)
    have a: "recursivelySimplifyStatement ifBody = Some ifBody"
      using 3(1) [OF st [symmetric] refl] sf ns by simp
    have b: "recursivelySimplifyStatement elseBody = Some elseBody"
      using 3(2) [OF st [symmetric] refl a] sf ns by simp
    show "recursivelySimplifyStatement (IfElse condition ifBody (Some elseBody)) =
            Some (IfElse condition ifBody (Some elseBody))"
      using st a b by simp
  qed
next
  case (4 condition loopBody pos)
  show ?case
  proof (intro impI)
    assume sf: "simplified_form (Loop condition loopBody pos)"
      and ns: "no_singleton_loop_body (Loop condition loopBody pos)"
    have "simplified_form loopBody" using sf ns by (auto intro: loop_body_simplified_form)
    then have "recursivelySimplifyStatement loopBody = Some loopBody" using 4 ns by simp
    then show "recursivelySimplifyStatement (Loop condition loopBody pos) = Some (Loop condition loopBody pos)"
      using loopPatterns_stable [OF sf] by simp
  qed
next
  case (5 e) show ?case by simp
next
  case 6 show ?case by simp
next
  case 7 show ?case by simp
next
  case (8 sub rest)
  show ?case
  proof (intro impI)
    assume all: "\<forall>x \<in> set (sub # rest). simplified_form x \<and> \<not> isSequence x \<and> no_singleton_loop_body x"
    then have a: "recursivelySimplifyStatement sub = Some sub" using 8(1) by simp
    have b: "simplifyStatements rest = Some rest" using 8(2) [OF a] all by simp
    have "flattened sub = [sub]" using all by (simp add: flattened_id)
    then show "simplifyStatements (sub # rest) = Some (sub # rest)" using a b by simp
  qed
qed

text \<open>Statements without \<open>Break\<close>: the do-while rewrite never fires on them.\<close>

lemma break_free_flattened:
  "break_free s \<and> no_singleton_loop_body s \<Longrightarrow>
   \<forall>x \<in> set (flattened s). break_free x \<and> no_singleton_loop_body x"
  by (cases s) auto

lemma simplified_form_not_singleton: "simplified_form s \<Longrightarrow> \<not> isSingletonSequence s"
  by (cases s) auto

lemma break_free_loopPatterns:
  assumes bf: "break_free b"
  shows "loopPatterns c b p = (if isEndless p \<and> b = Sequence [] then None else Some (Loop c b p))"
proof (cases "isEndless p")
  case False
  then show ?thesis by (simp add: loopPatterns_eq)
next
  case True
  show ?thesis
  proof (cases b)
    case (Sequence statements)
    show ?thesis
    proof (cases "statements = []")
      case True
      then show ?thesis using \<open>isEndless p\<close> Sequence by (simp add: loopPatterns_eq)
    next
      case False
      then have "last statements \<in> set statements" by simp
      then have "break_free (last statements)" using bf Sequence by simp
      then have "\<not> isBreakIf (last statements)"
        by (cases "last statements" rule: break_free.cases) auto
      then show ?thesis using \<open>isEndless p\<close> Sequence False
        by (cases "last statements") (auto simp: loopPatterns_eq)
    qed
  qed (use True in \<open>auto simp: loopPatterns_eq\<close>)
qed

lemma break_free_simplify:
  "(break_free s \<longrightarrow> recursivelySimplifyStatement s = Some t \<longrightarrow>
      break_free t \<and> no_singleton_loop_body t)"
  "((\<forall>x \<in> set ss. break_free x) \<longrightarrow> simplifyStatements ss = Some ts \<longrightarrow>
      (\<forall>x \<in> set ts. break_free x \<and> no_singleton_loop_body x))"
proof (induction s and ss arbitrary: t and ts rule: recursivelySimplifyStatement_simplifyStatements.induct)
  case (1 statements)
  show ?case
  proof (intro impI)
    assume bf: "break_free (Sequence statements)"
      and a: "recursivelySimplifyStatement (Sequence statements) = Some t"
    then obtain simplified where s: "simplifyStatements statements = Some simplified"
      and t: "t = (if length simplified = 1 then simplified ! 0 else Sequence simplified)"
      by (auto split: option.splits)
    have all: "\<forall>x \<in> set simplified. break_free x \<and> no_singleton_loop_body x"
    proof -
      have "\<forall>x \<in> set statements. break_free x" using bf by simp
      with 1 s show ?thesis by blast
    qed
    show "break_free t \<and> no_singleton_loop_body t"
    proof (cases "length simplified = 1")
      case True
      then have "simplified ! 0 \<in> set simplified" by simp
      with all t True show ?thesis by simp
    next
      case False
      with all t show ?thesis by simp
    qed
  qed
next
  case (2 condition ifBody)
  show ?case
  proof (intro impI)
    assume bf: "break_free (IfElse condition ifBody None)"
      and a: "recursivelySimplifyStatement (IfElse condition ifBody None) = Some t"
    then obtain ifBody' where s: "recursivelySimplifyStatement ifBody = Some ifBody'"
      by (auto split: option.splits)
    have "break_free ifBody" using bf by simp
    with 2 s have n: "break_free ifBody' \<and> no_singleton_loop_body ifBody'" by blast
    show "break_free t \<and> no_singleton_loop_body t"
    proof (cases "isIfWithoutElse ifBody'")
      case True
      then obtain cc ci where i: "ifBody' = IfElse cc ci None"
        by (cases ifBody' rule: isIfWithoutElse.cases) auto
      then have "t = IfElse (Binary ShortCircuitAnd condition cc) ci None" using a s by simp
      then show ?thesis using n i by simp
    next
      case False
      then have "t = IfElse condition ifBody' None" using a s
        by (cases ifBody' rule: isIfWithoutElse.cases) auto
      then show ?thesis using n by simp
    qed
  qed
next
  case (3 condition ifBody elseBody)
  show ?case
  proof (intro impI)
    assume bf: "break_free (IfElse condition ifBody (Some elseBody))"
      and a: "recursivelySimplifyStatement (IfElse condition ifBody (Some elseBody)) = Some t"
    obtain c x y where st: "strip_negations condition ifBody elseBody = (c, x, y)"
      by (cases "strip_negations condition ifBody elseBody") auto
    have bxy: "break_free x \<and> break_free y"
      using strip_negations_bodies [OF st] bf by auto
    from a st obtain x' y' where x': "recursivelySimplifyStatement x = Some x'"
      and y': "recursivelySimplifyStatement y = Some y'" and t: "t = IfElse c x' (Some y')"
      by (auto split: option.splits)
    have "break_free x' \<and> no_singleton_loop_body x'"
      using 3(1) [OF st [symmetric] refl] x' bxy by blast
    moreover have "break_free y' \<and> no_singleton_loop_body y'"
      using 3(2) [OF st [symmetric] refl x'] y' bxy by blast
    ultimately show "break_free t \<and> no_singleton_loop_body t" using t by simp
  qed
next
  case (4 condition loopBody pos)
  show ?case
  proof (intro impI)
    assume bf: "break_free (Loop condition loopBody pos)"
      and a: "recursivelySimplifyStatement (Loop condition loopBody pos) = Some t"
    then obtain b' where s: "recursivelySimplifyStatement loopBody = Some b'"
      and l: "loopPatterns condition b' pos = Some t"
      by (auto split: option.splits)
    have "break_free loopBody" using bf by simp
    with 4 s have b': "break_free b' \<and> no_singleton_loop_body b'" by blast
    have "simplified_form b'" using simplified_form_simplify(1) s by blast
    then have ns: "\<not> isSingletonSequence b'" by (rule simplified_form_not_singleton)
    have "t = Loop condition b' pos"
      using l b' by (simp add: break_free_loopPatterns split: if_splits)
    then show "break_free t \<and> no_singleton_loop_body t" using b' ns by simp
  qed
next
  case (5 e) show ?case by auto
next
  case 6 show ?case by auto
next
  case 7 show ?case by auto
next
  case (8 sub rest)
  show ?case
  proof (intro impI)
    assume bf: "\<forall>x \<in> set (sub # rest). break_free x"
      and a: "simplifyStatements (sub # rest) = Some ts"
    then obtain s' r' where s: "recursivelySimplifyStatement sub = Some s'"
      and r: "simplifyStatements rest = Some r'" and ts: "ts = flattened s' @ r'"
      by (auto split: option.splits)
    have bfs: "break_free sub" and bfr: "\<forall>x \<in> set rest. break_free x" using bf by simp_all
    have "break_free s' \<and> no_singleton_loop_body s'" using 8(1) s bfs by blast
    then have f: "\<forall>x \<in> set (flattened s'). break_free x \<and> no_singleton_loop_body x"
      by (rule break_free_flattened)
    have g: "\<forall>x \<in> set r'. break_free x \<and> no_singleton_loop_body x"
      using 8(2) [OF s] r bfr by blast
    have "set ts = set (flattened s') \<union> set r'" using ts by simp
    then show "\<forall>x \<in> set ts. break_free x \<and> no_singleton_loop_body x"
      using f g by blast
  qed
qed

lemma simplify_idempotent_break_free:
  assumes "break_free s" and "recursivelySimplifyStatement s = Some t"
  shows "recursivelySimplifyStatement t = Some t"
  using assms break_free_simplify(1) [of s t] simplified_form_simplify(1) [of s t]
    simplify_stable(1) [of t] by blast

subsection \<open>The do-while rewrite\<close>

text \<open>
  C6, as the code has it. When a loop is endless and its simplified body is a sequence
  ending in an \<open>IfElse\<close> whose then-branch is \<open>Break\<close>, the simplifier returns a
  post-tested loop over the sequence without that \<open>IfElse\<close>. The loop condition is
  \<open>logicalNegate cond\<close>: \<open>UnaryNot cond\<close> when \<open>cond\<close> is not itself a negation, and
  the operand \<open>x\<close> when \<open>cond\<close> is \<open>UnaryNot x\<close>.
\<close>

theorem do_while_rewrite:
  assumes "recursivelySimplifyStatement body =
             Some (Sequence (statements @ [IfElse cond Break elseBody]))"
  shows "recursivelySimplifyStatement (Loop c body Endless) =
           Some (Loop (Some (logicalNegate cond)) (Sequence statements) PostTested)
         \<and> (\<not> isUnaryNot cond \<longrightarrow> logicalNegate cond = UnaryNot cond)
         \<and> (\<forall>x. cond = UnaryNot x \<longrightarrow> logicalNegate cond = x)"
proof (intro conjI allI impI)
  show "recursivelySimplifyStatement (Loop c body Endless) =
           Some (Loop (Some (logicalNegate cond)) (Sequence statements) PostTested)"
    using assms by (simp add: loopPatterns_eq)
next
  assume "\<not> isUnaryNot cond"
  then show "logicalNegate cond = UnaryNot cond" by (cases cond) auto
next
  fix x assume "cond = UnaryNot x"
  then show "logicalNegate cond = x" by simp
qed

theorem do_while_rewrite_witness:
  "recursivelySimplifyStatement
     (Sequence [Expression (Value 0), Sequence [IfElse (Value 2) (Sequence [Break]) None]]) =
     Some (Sequence ([Expression (Value 0)] @ [IfElse (Value 2) Break None]))
   \<and> recursivelySimplifyStatement
     (Loop None (Sequence [Expression (Value 0), Sequence [IfElse (Value 2) (Sequence [Break]) None]])
        Endless) =
     Some (Loop (Some (UnaryNot (Value 2))) (Sequence [Expression (Value 0)]) PostTested)"
proof -
  have body: "recursivelySimplifyStatement
     (Sequence [Expression (Value 0), Sequence [IfElse (Value 2) (Sequence [Break]) None]]) =
     Some (Sequence ([Expression (Value 0)] @ [IfElse (Value 2) Break None]))"
    by simp
  from do_while_rewrite [OF body, of None] body show ?thesis by simp
qed

text \<open>
  The claim as stated fails where the trailing condition is a negation: the loop
  condition is then the operand, not the doubled negation.
\<close>

theorem do_while_rewrite_counterexample:
  "recursivelySimplifyStatement
     (Sequence [Expression (Value 0), IfElse (UnaryNot (Value 2)) Break None]) =
     Some (Sequence [Expression (Value 0), IfElse (UnaryNot (Value 2)) Break None])
   \<and> recursivelySimplifyStatement
     (Loop None (Sequence [Expression (Value 0), IfElse (UnaryNot (Value 2)) Break None]) Endless) =
     Some (Loop (Some (Value 2)) (Sequence [Expression (Value 0)]) PostTested)
   \<and> recursivelySimplifyStatement
     (Loop None (Sequence [Expression (Value 0), IfElse (UnaryNot (Value 2)) Break None]) Endless) \<noteq>
     Some (Loop (Some (UnaryNot (UnaryNot (Value 2)))) (Sequence [Expression (Value 0)]) PostTested)"
  by (simp add: loopPatterns_eq)

subsection \<open>Idempotence\<close>

text \<open>
  C8, as the code has it. A second simplification returns its input unchanged whenever
  the first result has no loop whose body is a one-element sequence. The do-while
  rewrite is the one place that leaves such a body: it removes the trailing \<open>IfElse\<close>
  from the body sequence and does not collapse what remains.
\<close>

theorem simplify_idempotent_amended:
  assumes "recursivelySimplifyStatement s = Some t" and "no_singleton_loop_body t"
  shows "recursivelySimplifyStatement t = Some t"
  using assms simplified_form_simplify(1) [of s t] simplify_stable(1) [of t] by blast

theorem simplify_idempotent_amended_witness:
  "recursivelySimplifyStatement
     (Loop None (Sequence [Expression (Value 0), Sequence [Expression (Value 3)],
        IfElse (Value 2) Break None]) Endless) =
     Some (Loop (Some (UnaryNot (Value 2))) (Sequence [Expression (Value 0), Expression (Value 3)])
        PostTested)
   \<and> no_singleton_loop_body
     (Loop (Some (UnaryNot (Value 2))) (Sequence [Expression (Value 0), Expression (Value 3)])
        PostTested)
   \<and> recursivelySimplifyStatement
     (Loop (Some (UnaryNot (Value 2))) (Sequence [Expression (Value 0), Expression (Value 3)])
        PostTested) =
     Some (Loop (Some (UnaryNot (Value 2))) (Sequence [Expression (Value 0), Expression (Value 3)])
        PostTested)"
proof -
  have a: "recursivelySimplifyStatement
     (Loop None (Sequence [Expression (Value 0), Sequence [Expression (Value 3)],
        IfElse (Value 2) Break None]) Endless) =
     Some (Loop (Some (UnaryNot (Value 2))) (Sequence [Expression (Value 0), Expression (Value 3)])
        PostTested)"
    by (simp add: loopPatterns_eq)
  have b: "no_singleton_loop_body
     (Loop (Some (UnaryNot (Value 2))) (Sequence [Expression (Value 0), Expression (Value 3)])
        PostTested)"
    by simp
  from simplify_idempotent_amended [OF a b] a b show ?thesis by (simp only: simp_thms)
qed

text \<open>
  The claim as stated fails on a result of the do-while rewrite whose body had two
  statements: the first pass leaves a one-element sequence as the loop body, the second
  pass replaces it by its only statement.
\<close>

theorem simplify_idempotent_counterexample:
  "recursivelySimplifyStatement
     (Loop None (Sequence [Expression (Value 0), IfElse (Value 2) Break None]) Endless) =
     Some (Loop (Some (UnaryNot (Value 2))) (Sequence [Expression (Value 0)]) PostTested)
   \<and> recursivelySimplifyStatement
     (Loop (Some (UnaryNot (Value 2))) (Sequence [Expression (Value 0)]) PostTested) =
     Some (Loop (Some (UnaryNot (Value 2))) (Expression (Value 0)) PostTested)
   \<and> recursivelySimplifyStatement
     (Loop (Some (UnaryNot (Value 2))) (Sequence [Expression (Value 0)]) PostTested) \<noteq>
     Some (Loop (Some (UnaryNot (Value 2))) (Sequence [Expression (Value 0)]) PostTested)"
  by (simp add: loopPatterns_eq)

section \<open>Properties of the grapher\<close>

lemma pool_stmts_allocate_stmts [simp]:
  "pool_stmts (allocate_stmts statements pool) = pool_stmts pool @ statements"
  unfolding allocate_stmts_def
  by (induction statements arbitrary: pool) (simp_all add: allocate_stmt_def)

lemma pool_exprs_allocate_stmts [simp]:
  "pool_exprs (allocate_stmts statements pool) = pool_exprs pool"
  unfolding allocate_stmts_def
  by (induction statements arbitrary: pool) (simp_all add: allocate_stmt_def)

lemma addInstructions_filter:
  "addInstructions insts statements =
     statements @ map (\<lambda>inst. Expression (Value (inst_value inst)))
       (filter (\<lambda>inst. \<not> isBranchInst (kind_of inst) \<and> \<not> isSwitchInst (kind_of inst)) insts)"
  by (induction insts arbitrary: statements) auto

text \<open>
  C5, as the code has it. The statement \<open>addBasicBlock\<close> returns is a new sequence
  holding, in instruction order, one expression statement for each instruction of the
  block that is neither a branch nor a switch. Other terminators, a return for one,
  are kept.
\<close>

theorem addBasicBlock_sequence:
  "stmt_at (fst (snd (addBasicBlock fn bb (pool, g)))) (fst (addBasicBlock fn bb (pool, g))) =
     Some (Sequence (map (\<lambda>inst. Expression (Value (inst_value inst)))
       (filter (\<lambda>inst. \<not> isBranchInst (kind_of inst) \<and> \<not> isSwitchInst (kind_of inst))
          (blockInsts fn bb))))"
  by (simp add: addBasicBlock_def allocate_stmt_def stmt_at_def addInstructions_filter)

lemma diamond_blockInsts:
  "blockInsts diamond 0 = [Inst 10 Plain, Inst 11 (CondBr 10 2 3)]"
  "blockInsts diamond 2 = [Inst 12 Plain, Inst 13 (Br 4)]"
  "blockInsts diamond 3 = [Inst 14 (Br 4)]"
  "blockInsts diamond 4 = [Inst 15 Ret]"
  by (simp_all add: blockInsts_def diamond_def)

text \<open>
  The claim as stated fails on a block that ends in a return: the return is a
  terminator, and the sequence has an expression statement for it.
\<close>

theorem addBasicBlock_sequence_counterexample:
  "isTerminator (kind_of (Inst 15 Ret))
   \<and> blockInsts diamond 4 = [Inst 15 Ret]
   \<and> stmt_at (fst (snd (addBasicBlock diamond 4 (empty_pool, new_grapher))))
        (fst (addBasicBlock diamond 4 (empty_pool, new_grapher))) =
      Some (Sequence [Expression (Value 15)])
   \<and> stmt_at (fst (snd (addBasicBlock diamond 4 (empty_pool, new_grapher))))
        (fst (addBasicBlock diamond 4 (empty_pool, new_grapher))) \<noteq>
      Some (Sequence (map (\<lambda>inst. Expression (Value (inst_value inst)))
        (filter (\<lambda>inst. \<not> isTerminator (kind_of inst)) (blockInsts diamond 4))))"
  by (simp add: addBasicBlock_def allocate_stmt_def stmt_at_def diamond_blockInsts empty_pool_def)

text \<open>
  C4, as the code has it. \<open>addBasicBlock\<close> does not look the block up: a second call
  for the same block allocates another sequence, equal in structure to the first, puts
  another leaf node at the back of the node storage (the earlier node stays), and points
  both indices at the new statement and the new node.
\<close>

theorem addBasicBlock_again:
  "(case addBasicBlock fn bb (pool, g) of
      (node1, pool1, g1) \<Rightarrow>
        (case addBasicBlock fn bb (pool1, g1) of
           (node2, pool2, g2) \<Rightarrow>
             node2 \<noteq> node1
             \<and> stmt_at pool2 node2 = stmt_at pool1 node1
             \<and> stmt_at pool2 node1 = stmt_at pool1 node1
             \<and> nodeStorage g2 =
                 nodeStorage g1 @ [\<lparr>gn_node = node2, gn_entry = bb, gn_exit = Some bb\<rparr>]
             \<and> nodeByEntry g1 bb = Some node1
             \<and> nodeByEntry g2 bb = Some node2
             \<and> getGraphNodeFromEntry g1 (Some bb) = Some (length (nodeStorage g))
             \<and> getGraphNodeFromEntry g2 (Some bb) = Some (Suc (length (nodeStorage g)))))"
  by (simp add: addBasicBlock_def allocate_stmt_def stmt_at_def getGraphNodeFromEntry_def
      getGraphNode_def nth_append)

text \<open>
  The claim as stated fails at the first block added to an empty grapher: the second
  call returns another statement and changes the node storage and both indices.
\<close>

theorem addBasicBlock_idempotent_counterexample:
  "fst (addBasicBlock diamond 4 (snd (addBasicBlock diamond 4 (empty_pool, new_grapher)))) \<noteq>
     fst (addBasicBlock diamond 4 (empty_pool, new_grapher))
   \<and> length (nodeStorage (snd (snd (addBasicBlock diamond 4 (empty_pool, new_grapher))))) = 1
   \<and> length (nodeStorage (snd (snd (addBasicBlock diamond 4
        (snd (addBasicBlock diamond 4 (empty_pool, new_grapher))))))) = 2
   \<and> nodeByEntry (snd (snd (addBasicBlock diamond 4
        (snd (addBasicBlock diamond 4 (empty_pool, new_grapher)))))) 4 \<noteq>
      nodeByEntry (snd (snd (addBasicBlock diamond 4 (empty_pool, new_grapher)))) 4
   \<and> snd (snd (addBasicBlock diamond 4 (snd (addBasicBlock diamond 4 (empty_pool, new_grapher))))) \<noteq>
      snd (snd (addBasicBlock diamond 4 (empty_pool, new_grapher)))"
proof -
  have "nodeStorage (snd (snd (addBasicBlock diamond 4
          (snd (addBasicBlock diamond 4 (empty_pool, new_grapher)))))) \<noteq>
        nodeStorage (snd (snd (addBasicBlock diamond 4 (empty_pool, new_grapher))))"
    by (simp add: addBasicBlock_def allocate_stmt_def empty_pool_def new_grapher_def)
  then have "snd (snd (addBasicBlock diamond 4 (snd (addBasicBlock diamond 4 (empty_pool, new_grapher))))) \<noteq>
      snd (snd (addBasicBlock diamond 4 (empty_pool, new_grapher)))"
    by metis
  then show ?thesis
    by (simp add: addBasicBlock_def allocate_stmt_def empty_pool_def new_grapher_def)
qed

section \<open>Properties of the Boolean simplifier\<close>

lemma eval_expandToProductOfSums:
  "eval_sop env (expandToProductOfSums stack rows) =
     (list_all (\<lambda>t. eval_expr env (snd t)) stack \<and> eval_pos env rows)"
proof (induction rows arbitrary: stack)
  case Nil
  show ?case by (simp add: eval_sop_def eval_pos_def)
next
  case (Cons row rows)
  have "eval_sop env (expandToProductOfSums stack (row # rows)) =
          (\<exists>e \<in> set row. eval_sop env (expandToProductOfSums (stack @ [e]) rows))"
    by (auto simp: eval_sop_def list_ex_iff)
  also have "\<dots> = (\<exists>e \<in> set row. list_all (\<lambda>t. eval_expr env (snd t)) (stack @ [e]) \<and> eval_pos env rows)"
    using Cons by simp
  also have "\<dots> = (list_all (\<lambda>t. eval_expr env (snd t)) stack \<and> eval_pos env (row # rows))"
    by (auto simp: eval_pos_def list_ex_iff)
  finally show ?case .
qed

lemma eval_distribute: "eval_sop env (distribute productOfSums) = eval_pos env productOfSums"
  by (simp add: distribute_def eval_expandToProductOfSums)

text \<open>
  C3 does not hold of the code. Step 1 erases a product that its factoring has emptied,
  although an empty product is true: \<open>A \<or> (A \<and> B)\<close> becomes \<open>A \<and> B\<close>. Step 3 takes
  \<open>e\<close> and \<open>\<not> e\<close> out of a sum that holds both and keeps the rest, although such a sum
  is true: the reaching condition \<open>(a \<and> b) \<or> (a \<and> \<not> b \<and> d) \<or> (\<not> a \<and> c)\<close> gets the
  factor \<open>\<not> b\<close>, from the sum \<open>a \<or> \<not> b \<or> \<not> a\<close>, and the factor \<open>b\<close>, from
  \<open>b \<or> a \<or> \<not> a\<close>. In both cases the input is true and
  the output false under the assignment given, also after distributing the output back
  to a sum of products.
\<close>

theorem simplifySumOfProducts_changes_meaning:
  "simplifySumOfProducts [[(0, Value 7)], [(2, Value 7), (3, Value 8)]] =
     Inr [[(0, Value 7)], [(3, Value 8)]]
   \<and> eval_sop (\<lambda>v. v = 7) [[(0, Value 7)], [(2, Value 7), (3, Value 8)]]
   \<and> \<not> eval_pos (\<lambda>v. v = 7) [[(0, Value 7)], [(3, Value 8)]]
   \<and> \<not> eval_sop (\<lambda>v. v = 7) (distribute [[(0, Value 7)], [(3, Value 8)]])
   \<and> simplifySumOfProducts
       [[(0, Value 7), (1, Value 8)],
        [(0, Value 7), (2, UnaryNot (Value 8)), (3, Value 9)],
        [(5, UnaryNot (Value 7)), (6, Value 10)]] =
     Inr [[(0, Value 7), (0, Value 7), (6, Value 10)],
          [(2, UnaryNot (Value 8))],
          [(0, Value 7), (2, UnaryNot (Value 8)), (6, Value 10)],
          [(3, Value 9)], [(0, Value 7), (3, Value 9), (6, Value 10)],
          [(1, Value 8)], [(1, Value 8), (0, Value 7), (6, Value 10)],
          [(5, UnaryNot (Value 7))], [(6, Value 10)],
          [(1, Value 8), (3, Value 9), (5, UnaryNot (Value 7))],
          [(1, Value 8), (3, Value 9), (6, Value 10)]]
   \<and> eval_sop (\<lambda>v. v = 7 \<or> v = 8)
       [[(0, Value 7), (1, Value 8)],
        [(0, Value 7), (2, UnaryNot (Value 8)), (3, Value 9)],
        [(5, UnaryNot (Value 7)), (6, Value 10)]]
   \<and> \<not> eval_pos (\<lambda>v. v = 7 \<or> v = 8)
         [[(0, Value 7), (0, Value 7), (6, Value 10)],
          [(2, UnaryNot (Value 8))],
          [(0, Value 7), (2, UnaryNot (Value 8)), (6, Value 10)],
          [(3, Value 9)], [(0, Value 7), (3, Value 9), (6, Value 10)],
          [(1, Value 8)], [(1, Value 8), (0, Value 7), (6, Value 10)],
          [(5, UnaryNot (Value 7))], [(6, Value 10)],
          [(1, Value 8), (3, Value 9), (5, UnaryNot (Value 7))],
          [(1, Value 8), (3, Value 9), (6, Value 10)]]"
proof -
  have a: "simplifySumOfProducts [[(0, Value 7)], [(2, Value 7), (3, Value 8)]] =
     Inr [[(0, Value 7)], [(3, Value 8)]]"
    by code_simp
  have b: "simplifySumOfProducts
       [[(0, Value 7), (1, Value 8)],
        [(0, Value 7), (2, UnaryNot (Value 8)), (3, Value 9)],
        [(5, UnaryNot (Value 7)), (6, Value 10)]] =
     Inr [[(0, Value 7), (0, Value 7), (6, Value 10)],
          [(2, UnaryNot (Value 8))],
          [(0, Value 7), (2, UnaryNot (Value 8)), (6, Value 10)],
          [(3, Value 9)], [(0, Value 7), (3, Value 9), (6, Value 10)],
          [(1, Value 8)], [(1, Value 8), (0, Value 7), (6, Value 10)],
          [(5, UnaryNot (Value 7))], [(6, Value 10)],
          [(1, Value 8), (3, Value 9), (5, UnaryNot (Value 7))],
          [(1, Value 8), (3, Value 9), (6, Value 10)]]"
    by code_simp
  have c: "\<not> eval_sop (\<lambda>v. v = 7) (distribute [[(0, Value 7)], [(3, Value 8)]])"
    unfolding eval_distribute by (simp add: eval_pos_def)
  show ?thesis
    unfolding a b using c by (simp add: eval_sop_def eval_pos_def)
qed

text \<open>
  C10 does not hold of the code. Two products whose terms are pairwise reference-equal
  are both emptied by the factoring of step 1 and both erased; step 2 then reads the
  front of an empty vector. The third input is \<open>(v \<and> \<not> v) \<or> (\<not> v \<and> v)\<close>, the reaching
  condition of a block behind two branches on the same value.
\<close>

theorem simplifySumOfProducts_front_of_empty:
  "simplifySumOfProducts [[(0, Value 7)], [(2, Value 7)]] = Inl FrontOfEmptyVector
   \<and> simplifySumOfProducts
       [[(0, Value 7), (2, UnaryNot (Value 8))], [(3, Value 7), (4, UnaryNot (Value 8))]] =
     Inl FrontOfEmptyVector
   \<and> simplifySumOfProducts
       [[(0, Value 7), (2, UnaryNot (Value 7))], [(3, UnaryNot (Value 7)), (4, Value 7)]] =
     Inl FrontOfEmptyVector"
  by code_simp

text \<open>
  The condition \<open>(v \<and> \<not> v) \<or> (\<not> v \<and> v)\<close> is the reaching condition that \<open>build\<close> records for
  block 4 of the function \<open>thrice\<close>, when the driver structures the region from block 0
  to block 8; the pass stops there, at the front of the empty vector.
\<close>

lemma thrice_reaching_condition:
  "isRegion (\<lambda>tv. 0) thrice thrice_an 0 (Some 8)
   \<and> nodeByEntry (snd thrice_before_entry) 4 = Some 5
   \<and> (case buildSumsOfProducts (snd thrice_before_entry) thrice
             (getGraphNodeFromEntry (snd thrice_before_entry) (Some 0))
             (getGraphNodeFromEntry (snd thrice_before_entry) (Some 8))
             (\<lambda>s. None, fst thrice_before_entry) of
        Inl e \<Rightarrow> False
      | Inr reach \<Rightarrow> fst reach 5 =
          Some [[(0, Value 7), (2, UnaryNot (Value 7))], [(3, UnaryNot (Value 7)), (4, Value 7)]])"
  by code_simp

lemma thrice_aborts:
  "(case runOnModule (\<lambda>tv. 0) (\<lambda>f. thrice_an) [thrice] blank_backend of
      Inl e \<Rightarrow> e = FrontOfEmptyVector
    | Inr be \<Rightarrow> False)"
  by code_simp

text \<open>
  The condition \<open>(a \<and> b) \<or> (a \<and> \<not> b \<and> d) \<or> (\<not> a \<and> c)\<close> is the reaching condition that
  \<open>build\<close> records for block 6 of the function \<open>nested\<close>, when the driver structures the region from
  block 0 to block 8. In the AST registered for the function, the statement of block 6
  is guarded by a condition that no assignment satisfies.
\<close>

lemma nested_reaching_condition:
  "isRegion (\<lambda>tv. 0) nested nested_an 0 (Some 8)
   \<and> nodeByEntry (snd nested_before_entry) 6 = Some 3
   \<and> (case buildSumsOfProducts (snd nested_before_entry) nested
             (getGraphNodeFromEntry (snd nested_before_entry) (Some 0))
             (getGraphNodeFromEntry (snd nested_before_entry) (Some 8))
             (\<lambda>s. None, fst nested_before_entry) of
        Inl e \<Rightarrow> False
      | Inr reach \<Rightarrow> fst reach 3 =
          Some [[(0, Value 7), (1, Value 8)],
                [(0, Value 7), (2, UnaryNot (Value 8)), (3, Value 9)],
                [(5, UnaryNot (Value 7)), (6, Value 10)]])"
  by code_simp

lemma nested_structured:
  "(case runOnModule (\<lambda>tv. 0) (\<lambda>f. nested_an) [nested] blank_backend of
      Inl e \<Rightarrow> False
    | Inr be \<Rightarrow> registered_ast (be_pool be, be_grapher be) 0 =
        Some (Sequence
          [Expression (Value 100),
           IfElse (Value 7)
             (Sequence [Expression (Value 102),
                IfElse (UnaryNot (Value 8)) (Expression (Value 106)) None])
             (Some (Expression (Value 104))),
           IfElse
             (Binary ShortCircuitAnd
               (Binary ShortCircuitOr (Value 7) (UnaryNot (Value 10)))
               (Binary ShortCircuitAnd
                 (Binary ShortCircuitOr (UnaryNot (Value 8)) (UnaryNot (Value 7)))
                 (Binary ShortCircuitAnd
                   (Binary ShortCircuitOr (UnaryNot (Value 8)) (UnaryNot (Value 10)))
                   (Binary ShortCircuitAnd
                     (Binary ShortCircuitOr (UnaryNot (Value 9)) (UnaryNot (Value 7)))
                     (Binary ShortCircuitOr (UnaryNot (Value 9)) (UnaryNot (Value 10)))))))
             (Expression (Value 108)) None,
           IfElse nested_guard (Expression (Value 110)) None,
           Expression (Value 112)]))"
  by code_simp

lemma nested_guard_unsatisfiable: "\<not> eval_expr env nested_guard"
  by (simp add: nested_guard_def)

section \<open>Properties of the reaching conditions\<close>

lemma re_refl: "records_extensions cs c c"
  unfolding records_extensions_def by (intro allI exI [of _ "[]"]) simp

lemma re_push: "records_extensions cs c (push_condition n cs c)"
  unfolding records_extensions_def
proof
  fix s
  show "\<exists>new. products_of (push_condition n cs c) s = products_of c s @ new \<and>
        (\<forall>p \<in> set new. \<exists>ext. p = cs @ ext \<and> (\<forall>t \<in> set ext. is_branch_predicate (snd t)))"
  proof (cases "s = n")
    case True
    have "products_of (push_condition n cs c) s = products_of c s @ [cs]"
      using True by (simp add: products_of_def push_condition_def)
    moreover have "\<forall>p \<in> set [cs]. \<exists>ext. p = cs @ ext \<and> (\<forall>t \<in> set ext. is_branch_predicate (snd t))"
      by (intro ballI exI [of _ "[]"]) simp
    ultimately show ?thesis by blast
  next
    case False
    then have "products_of (push_condition n cs c) s = products_of c s @ []"
      by (simp add: products_of_def push_condition_def)
    then show ?thesis by (intro exI [of _ "[]"]) simp
  qed
qed

lemma re_trans:
  assumes "records_extensions cs a b" and "records_extensions cs b c"
  shows "records_extensions cs a c"
  unfolding records_extensions_def
proof
  fix s
  from assms(1) obtain n1 where 1: "products_of b s = products_of a s @ n1"
    "\<forall>p \<in> set n1. \<exists>ext. p = cs @ ext \<and> (\<forall>t \<in> set ext. is_branch_predicate (snd t))"
    unfolding records_extensions_def by blast
  from assms(2) obtain n2 where 2: "products_of c s = products_of b s @ n2"
    "\<forall>p \<in> set n2. \<exists>ext. p = cs @ ext \<and> (\<forall>t \<in> set ext. is_branch_predicate (snd t))"
    unfolding records_extensions_def by blast
  have "products_of c s = products_of a s @ (n1 @ n2)" using 1(1) 2(1) by simp
  moreover have "\<forall>p \<in> set (n1 @ n2). \<exists>ext. p = cs @ ext \<and> (\<forall>t \<in> set ext. is_branch_predicate (snd t))"
    using 1(2) 2(2) by auto
  ultimately show "\<exists>new. products_of c s = products_of a s @ new \<and>
        (\<forall>p \<in> set new. \<exists>ext. p = cs @ ext \<and> (\<forall>t \<in> set ext. is_branch_predicate (snd t)))"
    by blast
qed

lemma re_weaken:
  assumes t: "is_branch_predicate (snd t)" and r: "records_extensions (cs @ [t]) a b"
  shows "records_extensions cs a b"
  unfolding records_extensions_def
proof
  fix s
  from r obtain new where n: "products_of b s = products_of a s @ new"
    "\<forall>p \<in> set new. \<exists>ext. p = (cs @ [t]) @ ext \<and> (\<forall>x \<in> set ext. is_branch_predicate (snd x))"
    unfolding records_extensions_def by blast
  have "\<forall>p \<in> set new. \<exists>ext. p = cs @ ext \<and> (\<forall>x \<in> set ext. is_branch_predicate (snd x))"
  proof
    fix p assume "p \<in> set new"
    with n(2) obtain ext where e: "p = (cs @ [t]) @ ext" "\<forall>x \<in> set ext. is_branch_predicate (snd x)"
      by blast
    have "p = cs @ (t # ext)" using e(1) by simp
    moreover have "\<forall>x \<in> set (t # ext). is_branch_predicate (snd x)" using e(2) t by simp
    ultimately show "\<exists>ext. p = cs @ ext \<and> (\<forall>x \<in> set ext. is_branch_predicate (snd x))" by blast
  qed
  with n(1) show "\<exists>new. products_of b s = products_of a s @ new \<and>
        (\<forall>p \<in> set new. \<exists>ext. p = cs @ ext \<and> (\<forall>t \<in> set ext. is_branch_predicate (snd t)))"
    by blast
qed

lemma build_back_edge: "currentNode \<in> set visitStack \<Longrightarrow> build g fn currentNode cs visitStack st = Inr st"
  by (subst build.simps) simp

lemma build_folded:
  assumes "Some n \<notin> set visitStack" "n < length (nodeStorage g)" "hasExit (nodeStorage g ! n)"
  shows "build g fn (Some n) cs visitStack st =
           build g fn (getGraphNodeFromEntry g (gn_exit (nodeStorage g ! n))) cs (visitStack @ [Some n])
             (push_condition (gn_node (nodeStorage g ! n)) cs (fst st), snd st)"
  using assms by (subst build.simps) simp

lemma build_conditional:
  assumes "Some n \<notin> set visitStack" "n < length (nodeStorage g)" "\<not> hasExit (nodeStorage g ! n)"
    and "getTerminator fn (gn_entry (nodeStorage g ! n)) = Some (CondBr c s0 s1)"
  shows "build g fn (Some n) cs visitStack st =
           (case build g fn (getGraphNodeFromEntry g (Some s0))
                   (cs @ [(pool_exprs (snd st), Value c)]) (visitStack @ [Some n])
                   (push_condition (gn_node (nodeStorage g ! n)) cs (fst st),
                    (snd st)\<lparr>pool_exprs := Suc (pool_exprs (snd st))\<rparr>) of
              Inl e \<Rightarrow> Inl e
            | Inr st2 \<Rightarrow>
                build g fn (getGraphNodeFromEntry g (Some s1))
                  (cs @ [(pool_exprs (snd st2), UnaryNot (Value c))]) (visitStack @ [Some n])
                  (fst st2, (snd st2)\<lparr>pool_exprs := Suc (pool_exprs (snd st2))\<rparr>))"
  using assms by (subst build.simps) (simp add: allocate_expr_def cong: sum.case_cong)

lemma build_unconditional:
  assumes "Some n \<notin> set visitStack" "n < length (nodeStorage g)" "\<not> hasExit (nodeStorage g ! n)"
    and "getTerminator fn (gn_entry (nodeStorage g ! n)) = Some (Br s0)"
  shows "build g fn (Some n) cs visitStack st =
           build g fn (getGraphNodeFromEntry g (Some s0)) cs (visitStack @ [Some n])
             (push_condition (gn_node (nodeStorage g ! n)) cs (fst st), snd st)"
  using assms by (subst build.simps) simp

lemma build_other:
  assumes "Some n \<notin> set visitStack" "n < length (nodeStorage g)" "\<not> hasExit (nodeStorage g ! n)"
    and "getTerminator fn (gn_entry (nodeStorage g ! n)) = Some k" "\<not> isBranchInst k"
  shows "build g fn (Some n) cs visitStack st =
           Inr (push_condition (gn_node (nodeStorage g ! n)) cs (fst st), snd st)"
  using assms by (subst build.simps) (cases k; simp)

lemma build_records:
  "build g fn currentNode cs visitStack st = Inr st' \<Longrightarrow> records_extensions cs (fst st) (fst st')"
proof (induction g fn currentNode cs visitStack st arbitrary: st' rule: build.induct)
  case (1 g fn currentNode conditionStack visitStack st)
  note res = 1(5)
  show ?case
  proof (cases "currentNode \<in> set visitStack")
    case True
    then have "st' = st" using res by (simp add: build_back_edge)
    then show ?thesis by (simp add: re_refl)
  next
    case nv: False
    then obtain n where cn: "currentNode = Some n" using res
      by (cases currentNode) (auto simp: build.simps [of g fn None])
    have nlt: "n < length (nodeStorage g)" using res nv cn
      by (subst (asm) build.simps) (auto split: if_splits)
    have nv': "Some n \<notin> set visitStack" using nv cn by simp
    let ?node = "nodeStorage g ! n"
    let ?c1 = "push_condition (gn_node ?node) conditionStack (fst st)"
    have push: "records_extensions conditionStack (fst st) ?c1" by (rule re_push)
    show ?thesis
    proof (cases "hasExit ?node")
      case True
      have "build g fn (getGraphNodeFromEntry g (gn_exit ?node)) conditionStack (visitStack @ [currentNode])
              (?c1, snd st) = Inr st'"
        using res build_folded [OF nv' nlt True, of fn conditionStack st] cn by simp
      from 1(1) [OF nv cn _ True this] nlt
      have "records_extensions conditionStack ?c1 (fst st')" by simp
      with push show ?thesis by (rule re_trans)
    next
      case ne: False
      obtain k where k: "getTerminator fn (gn_entry ?node) = Some k" using res nv' nlt ne cn
        by (subst (asm) build.simps) (auto split: option.splits)
      show ?thesis
      proof (cases k)
        case (Br s0)
        have "build g fn (getGraphNodeFromEntry g (Some s0)) conditionStack (visitStack @ [currentNode])
                (?c1, snd st) = Inr st'"
          using res build_unconditional [OF nv' nlt ne, of fn s0 conditionStack st] k Br cn by simp
        from 1(2) [OF nv cn _ ne k Br this] nlt
        have "records_extensions conditionStack ?c1 (fst st')" by simp
        with push show ?thesis by (rule re_trans)
      next
        case (CondBr c s0 s1)
        let ?t = "fst (allocate_expr (Value c) (snd st))"
        let ?p1 = "snd (allocate_expr (Value c) (snd st))"
        have eq: "build g fn (Some n) conditionStack visitStack st =
           (case build g fn (getGraphNodeFromEntry g (Some s0)) (conditionStack @ [?t])
                   (visitStack @ [Some n]) (?c1, ?p1) of
              Inl e \<Rightarrow> Inl e
            | Inr st2 \<Rightarrow>
                build g fn (getGraphNodeFromEntry g (Some s1))
                  (conditionStack @ [fst (allocate_expr (UnaryNot (Value c)) (snd st2))])
                  (visitStack @ [Some n])
                  (fst st2, snd (allocate_expr (UnaryNot (Value c)) (snd st2))))"
          using nv' nlt ne k CondBr by (subst build.simps) simp
        then obtain st2 where b1: "build g fn (getGraphNodeFromEntry g (Some s0)) (conditionStack @ [?t])
                   (visitStack @ [currentNode]) (?c1, ?p1) = Inr st2"
          and b2: "build g fn (getGraphNodeFromEntry g (Some s1))
                  (conditionStack @ [fst (allocate_expr (UnaryNot (Value c)) (snd st2))])
                  (visitStack @ [currentNode])
                  (fst st2, snd (allocate_expr (UnaryNot (Value c)) (snd st2))) = Inr st'"
          using res cn by (auto split: sum.splits)
        have nn: "\<not> \<not> n < length (nodeStorage g)" using nlt by simp
        have r1: "records_extensions (conditionStack @ [?t]) ?c1 (fst st2)"
          using 1(3) [OF nv cn nn ne k CondBr b1] by simp
        have r2: "records_extensions (conditionStack @ [fst (allocate_expr (UnaryNot (Value c)) (snd st2))])
                    (fst st2) (fst st')"
          using 1(4) [OF nv cn nn ne k CondBr b1 b2] by simp
        have w1: "records_extensions conditionStack ?c1 (fst st2)"
          using r1 by (rule re_weaken [rotated]) (simp add: allocate_expr_def)
        have w2: "records_extensions conditionStack (fst st2) (fst st')"
          using r2 by (rule re_weaken [rotated]) (simp add: allocate_expr_def)
        show ?thesis using push w1 w2 by (blast intro: re_trans)
      next
        case Plain
        then have "st' = (?c1, snd st)"
          using res build_other [OF nv' nlt ne k, of conditionStack st] cn by simp
        then show ?thesis using push by simp
      next
        case Ret
        then have "st' = (?c1, snd st)"
          using res build_other [OF nv' nlt ne k, of conditionStack st] cn by simp
        then show ?thesis using push by simp
      next
        case Unreachable
        then have "st' = (?c1, snd st)"
          using res build_other [OF nv' nlt ne k, of conditionStack st] cn by simp
        then show ?thesis using push by simp
      next
        case (Switch v d cases)
        then have "st' = (?c1, snd st)"
          using res build_other [OF nv' nlt ne k, of conditionStack st] cn by simp
        then show ?thesis using push by simp
      qed
    qed
  qed
qed

lemma appends_refl: "appends a a" by (simp add: appends_def)

lemma appends_trans: "appends a b \<Longrightarrow> appends b c \<Longrightarrow> appends a c"
  unfolding appends_def by (metis append.assoc)

lemma appends_push: "appends c (push_condition n cs c)"
  using re_push [of cs c n] unfolding appends_def records_extensions_def by blast

lemma build_appends: "build g fn currentNode cs visitStack st = Inr st' \<Longrightarrow> appends (fst st) (fst st')"
  using build_records [of g fn currentNode cs visitStack st st']
  unfolding appends_def records_extensions_def by blast

lemma added_products_split:
  "appends a b \<Longrightarrow> appends b c \<Longrightarrow>
   added_products a c s = added_products a b s @ added_products b c s"
proof -
  assume ab: "appends a b" and bc: "appends b c"
  from ab obtain x where x: "products_of b s = products_of a s @ x" unfolding appends_def by blast
  from bc obtain y where y: "products_of c s = products_of b s @ y" unfolding appends_def by blast
  show ?thesis by (simp add: added_products_def x y)
qed

lemma added_products_appends:
  "appends a b \<Longrightarrow> products_of b s = products_of a s @ added_products a b s"
  unfolding appends_def added_products_def by (metis append_eq_conv_conj)

lemma added_products_push:
  "added_products c (push_condition n cs c) s = (if s = n then [cs] else [])"
  by (simp add: added_products_def products_of_def push_condition_def)

lemma build_cases:
  assumes b: "build g fn (Some n) cs vs st = Inr st'" and nv: "Some n \<notin> set vs"
  obtains
    (folded) "n < length (nodeStorage g)" "hasExit (nodeStorage g ! n)"
      "build g fn (getGraphNodeFromEntry g (gn_exit (nodeStorage g ! n))) cs (vs @ [Some n])
         (push_condition (gn_node (nodeStorage g ! n)) cs (fst st), snd st) = Inr st'"
  | (conditional) c s0 s1 st2 where "n < length (nodeStorage g)" "\<not> hasExit (nodeStorage g ! n)"
      "getTerminator fn (gn_entry (nodeStorage g ! n)) = Some (CondBr c s0 s1)"
      "build g fn (getGraphNodeFromEntry g (Some s0)) (cs @ [(pool_exprs (snd st), Value c)])
         (vs @ [Some n])
         (push_condition (gn_node (nodeStorage g ! n)) cs (fst st),
          (snd st)\<lparr>pool_exprs := Suc (pool_exprs (snd st))\<rparr>) = Inr st2"
      "build g fn (getGraphNodeFromEntry g (Some s1)) (cs @ [(pool_exprs (snd st2), UnaryNot (Value c))])
         (vs @ [Some n])
         (fst st2, (snd st2)\<lparr>pool_exprs := Suc (pool_exprs (snd st2))\<rparr>) = Inr st'"
  | (unconditional) s0 where "n < length (nodeStorage g)" "\<not> hasExit (nodeStorage g ! n)"
      "getTerminator fn (gn_entry (nodeStorage g ! n)) = Some (Br s0)"
      "build g fn (getGraphNodeFromEntry g (Some s0)) cs (vs @ [Some n])
         (push_condition (gn_node (nodeStorage g ! n)) cs (fst st), snd st) = Inr st'"
  | (other) k where "n < length (nodeStorage g)" "\<not> hasExit (nodeStorage g ! n)"
      "getTerminator fn (gn_entry (nodeStorage g ! n)) = Some k" "\<not> isBranchInst k"
      "st' = (push_condition (gn_node (nodeStorage g ! n)) cs (fst st), snd st)"
proof -
  have nlt: "n < length (nodeStorage g)" using b nv
    by (subst (asm) build.simps) (auto split: if_splits)
  show thesis
  proof (cases "hasExit (nodeStorage g ! n)")
    case True
    then show thesis using folded nlt b build_folded [OF nv nlt True, of fn cs st] by simp
  next
    case ne: False
    obtain k where k: "getTerminator fn (gn_entry (nodeStorage g ! n)) = Some k" using b nv nlt ne
      by (subst (asm) build.simps) (auto split: option.splits)
    show thesis
    proof (cases "isBranchInst k")
      case False
      then show thesis using other [OF nlt ne k False] b build_other [OF nv nlt ne k False, of cs st]
        by simp
    next
      case True
      then consider (br) s0 where "k = Br s0" | (cond) c s0 s1 where "k = CondBr c s0 s1"
        by (cases k) auto
      then show thesis
      proof cases
        case br
        then show thesis
          using unconditional [OF nlt ne] k b build_unconditional [OF nv nlt ne, of fn s0 cs st] by simp
      next
        case cond
        from b build_conditional [OF nv nlt ne, of fn c s0 s1 cs st] k cond
        obtain st2 where "build g fn (getGraphNodeFromEntry g (Some s0)) (cs @ [(pool_exprs (snd st), Value c)])
         (vs @ [Some n])
         (push_condition (gn_node (nodeStorage g ! n)) cs (fst st),
          (snd st)\<lparr>pool_exprs := Suc (pool_exprs (snd st))\<rparr>) = Inr st2"
          "build g fn (getGraphNodeFromEntry g (Some s1)) (cs @ [(pool_exprs (snd st2), UnaryNot (Value c))])
         (vs @ [Some n])
         (fst st2, (snd st2)\<lparr>pool_exprs := Suc (pool_exprs (snd st2))\<rparr>) = Inr st'"
          by (auto split: sum.splits)
        then show thesis using conditional [OF nlt ne] k cond by blast
      qed
    qed
  qed
qed

lemma build_pushes:
  assumes b: "build g fn (Some n) cs vs st = Inr st'" and nv: "Some n \<notin> set vs"
  shows "appends (push_condition (gn_node (nodeStorage g ! n)) cs (fst st)) (fst st')"
  using b nv
proof (cases rule: build_cases)
  case folded
  then show ?thesis using build_appends by fastforce
next
  case (conditional c s0 s1 st2)
  from build_appends [OF conditional(4)] build_appends [OF conditional(5)]
  show ?thesis by (auto intro: appends_trans)
next
  case (unconditional s0)
  then show ?thesis using build_appends by fastforce
next
  case (other k)
  then show ?thesis by (simp add: appends_refl)
qed

lemma path_products_lift:
  assumes "path_products g fn vs' cur' (cs @ pre) new s"
    and "\<And>k conds m. cur' = Some k \<Longrightarrow> reaches g fn vs' k conds m \<Longrightarrow>
           reaches g fn vs n (map snd pre @ conds) m"
  shows "path_products g fn vs (Some n) cs new s"
  unfolding path_products_def
proof
  fix p assume "p \<in> set new"
  with assms(1) obtain k ext m where k: "cur' = Some k" "p = (cs @ pre) @ ext"
    "reaches g fn vs' k (map snd ext) m" "gn_node (nodeStorage g ! m) = s"
    unfolding path_products_def by blast
  have "p = cs @ (pre @ ext)" using k(2) by simp
  moreover have "reaches g fn vs n (map snd (pre @ ext)) m" using assms(2) [OF k(1) k(3)] by simp
  ultimately show "\<exists>n' ext m. Some n = Some n' \<and> p = cs @ ext \<and>
         reaches g fn vs n' (map snd ext) m \<and> gn_node (nodeStorage g ! m) = s"
    using k(4) by blast
qed

lemma path_products_append:
  "path_products g fn vs cur cs x s \<Longrightarrow> path_products g fn vs cur cs y s \<Longrightarrow>
   path_products g fn vs cur cs (x @ y) s"
  unfolding path_products_def by auto

lemma path_products_push:
  assumes "Some n \<notin> set vs" "n < length (nodeStorage g)"
  shows "path_products g fn vs (Some n) cs
           (added_products c (push_condition (gn_node (nodeStorage g ! n)) cs c) s) s"
proof (cases "s = gn_node (nodeStorage g ! n)")
  case True
  have "reaches g fn vs n (map snd []) n" using assms by (simp add: reaches.arrived)
  then show ?thesis unfolding path_products_def using True
    by (auto simp: added_products_push intro!: exI [of _ "[]"])
next
  case False
  then show ?thesis unfolding path_products_def by (simp add: added_products_push)
qed

lemma build_sound:
  "build g fn cur cs vs st = Inr st' \<Longrightarrow>
   path_products g fn vs cur cs (added_products (fst st) (fst st') s) s"
proof (induction "card (unvisited g vs)" arbitrary: cur cs vs st st' rule: less_induct)
  case less
  note b = less.prems
  show ?case
  proof (cases "cur \<in> set vs")
    case True
    then have "st' = st" using b by (simp add: build_back_edge)
    then show ?thesis by (simp add: path_products_def added_products_def)
  next
    case nvc: False
    then obtain n where cn: "cur = Some n" using b
      by (cases cur) (auto simp: build.simps [of g fn None])
    have nv: "Some n \<notin> set vs" using nvc cn by simp
    let ?c1 = "push_condition (gn_node (nodeStorage g ! n)) cs (fst st)"
    have split: "added_products (fst st) (fst st') s =
                   added_products (fst st) ?c1 s @ added_products ?c1 (fst st') s"
      using added_products_split [OF appends_push build_pushes] b nv cn by blast
    from b [unfolded cn] nv show ?thesis
    proof (cases rule: build_cases)
      case folded
      have m: "card (unvisited g (vs @ [Some n])) < card (unvisited g vs)"
        using unvisited_push [OF folded(1) nv] .
      have "path_products g fn (vs @ [Some n]) (getGraphNodeFromEntry g (gn_exit (nodeStorage g ! n)))
              (cs @ []) (added_products ?c1 (fst st') s) s"
        using less.hyps [OF m folded(3)] by simp
      then have "path_products g fn vs (Some n) cs (added_products ?c1 (fst st') s) s"
        by (rule path_products_lift) (use folded nv in \<open>auto intro: reaches.through_folded\<close>)
      then show ?thesis unfolding cn split
        using path_products_push [OF nv folded(1)] by (auto intro: path_products_append)
    next
      case (conditional c s0 s1 st2)
      have m: "card (unvisited g (vs @ [Some n])) < card (unvisited g vs)"
        using unvisited_push [OF conditional(1) nv] .
      have sp2: "added_products ?c1 (fst st') s =
                   added_products ?c1 (fst st2) s @ added_products (fst st2) (fst st') s"
        using added_products_split [OF build_appends [OF conditional(4), simplified] build_appends [OF conditional(5), simplified]]
        by simp
      have "path_products g fn (vs @ [Some n]) (getGraphNodeFromEntry g (Some s0))
              (cs @ [(pool_exprs (snd st), Value c)]) (added_products ?c1 (fst st2) s) s"
        using less.hyps [OF m conditional(4)] by simp
      then have 1: "path_products g fn vs (Some n) cs (added_products ?c1 (fst st2) s) s"
        by (rule path_products_lift) (use conditional nv in \<open>auto intro: reaches.through_successor0\<close>)
      have "path_products g fn (vs @ [Some n]) (getGraphNodeFromEntry g (Some s1))
              (cs @ [(pool_exprs (snd st2), UnaryNot (Value c))]) (added_products (fst st2) (fst st') s) s"
        using less.hyps [OF m conditional(5)] by simp
      then have 2: "path_products g fn vs (Some n) cs (added_products (fst st2) (fst st') s) s"
        by (rule path_products_lift) (use conditional nv in \<open>auto intro: reaches.through_successor1\<close>)
      show ?thesis unfolding cn split sp2
        using path_products_push [OF nv conditional(1)] 1 2 by (auto intro: path_products_append)
    next
      case (unconditional s0)
      have m: "card (unvisited g (vs @ [Some n])) < card (unvisited g vs)"
        using unvisited_push [OF unconditional(1) nv] .
      have "path_products g fn (vs @ [Some n]) (getGraphNodeFromEntry g (Some s0))
              (cs @ []) (added_products ?c1 (fst st') s) s"
        using less.hyps [OF m unconditional(4)] by simp
      then have "path_products g fn vs (Some n) cs (added_products ?c1 (fst st') s) s"
        by (rule path_products_lift) (use unconditional nv in \<open>auto intro: reaches.through_branch\<close>)
      then show ?thesis unfolding cn split
        using path_products_push [OF nv unconditional(1)] by (auto intro: path_products_append)
    next
      case (other k)
      then show ?thesis unfolding cn using path_products_push [OF nv other(1)] by simp
    qed
  qed
qed

lemma build_complete:
  "reaches g fn vs n conds m \<Longrightarrow> build g fn (Some n) cs vs st = Inr st' \<Longrightarrow>
   \<exists>ext. map snd ext = conds \<and>
     cs @ ext \<in> set (added_products (fst st) (fst st') (gn_node (nodeStorage g ! m)))"
proof (induction arbitrary: cs st st' rule: reaches.induct)
  case (arrived n vs)
  let ?c1 = "push_condition (gn_node (nodeStorage g ! n)) cs (fst st)"
  have "added_products (fst st) (fst st') (gn_node (nodeStorage g ! n)) =
          added_products (fst st) ?c1 (gn_node (nodeStorage g ! n)) @
          added_products ?c1 (fst st') (gn_node (nodeStorage g ! n))"
    using added_products_split [OF appends_push build_pushes] arrived by blast
  then have "cs @ [] \<in> set (added_products (fst st) (fst st') (gn_node (nodeStorage g ! n)))"
    by (simp add: added_products_push)
  then show ?case by (intro exI [of _ "[]"]) simp
next
  case (through_folded n vs k conds m)
  let ?c1 = "push_condition (gn_node (nodeStorage g ! n)) cs (fst st)"
  let ?s = "gn_node (nodeStorage g ! m)"
  have split: "added_products (fst st) (fst st') ?s =
                 added_products (fst st) ?c1 ?s @ added_products ?c1 (fst st') ?s"
    using added_products_split [OF appends_push build_pushes] through_folded by blast
  from through_folded(7) through_folded(1)
  have "build g fn (Some k) cs (vs @ [Some n]) (?c1, snd st) = Inr st'"
    by (cases rule: build_cases) (use through_folded in auto)
  from through_folded(6) [OF this] show ?case unfolding split by auto
next
  case (through_successor0 n vs c s0 s1 k conds m)
  let ?c1 = "push_condition (gn_node (nodeStorage g ! n)) cs (fst st)"
  let ?s = "gn_node (nodeStorage g ! m)"
  have split: "added_products (fst st) (fst st') ?s =
                 added_products (fst st) ?c1 ?s @ added_products ?c1 (fst st') ?s"
    using added_products_split [OF appends_push build_pushes] through_successor0 by blast
  from through_successor0(8) through_successor0(1)
  obtain st2 where b1: "build g fn (Some k) (cs @ [(pool_exprs (snd st), Value c)]) (vs @ [Some n])
         (?c1, (snd st)\<lparr>pool_exprs := Suc (pool_exprs (snd st))\<rparr>) = Inr st2"
    and b2: "build g fn (getGraphNodeFromEntry g (Some s1)) (cs @ [(pool_exprs (snd st2), UnaryNot (Value c))])
         (vs @ [Some n]) (fst st2, (snd st2)\<lparr>pool_exprs := Suc (pool_exprs (snd st2))\<rparr>) = Inr st'"
    by (cases rule: build_cases) (use through_successor0 in auto)
  have sp2: "added_products ?c1 (fst st') ?s =
               added_products ?c1 (fst st2) ?s @ added_products (fst st2) (fst st') ?s"
    using added_products_split [OF build_appends [OF b1, simplified] build_appends [OF b2, simplified]] by simp
  from through_successor0(7) [OF b1] obtain ext where
    e: "map snd ext = conds" "(cs @ [(pool_exprs (snd st), Value c)]) @ ext \<in> set (added_products ?c1 (fst st2) ?s)"
    by auto
  have "cs @ ((pool_exprs (snd st), Value c) # ext) \<in> set (added_products (fst st) (fst st') ?s)"
    unfolding split sp2 using e(2) by simp
  then show ?case using e(1) by (intro exI [of _ "(pool_exprs (snd st), Value c) # ext"]) simp
next
  case (through_successor1 n vs c s0 s1 k conds m)
  let ?c1 = "push_condition (gn_node (nodeStorage g ! n)) cs (fst st)"
  let ?s = "gn_node (nodeStorage g ! m)"
  have split: "added_products (fst st) (fst st') ?s =
                 added_products (fst st) ?c1 ?s @ added_products ?c1 (fst st') ?s"
    using added_products_split [OF appends_push build_pushes] through_successor1 by blast
  from through_successor1(8) through_successor1(1)
  obtain st2 where b1: "build g fn (getGraphNodeFromEntry g (Some s0)) (cs @ [(pool_exprs (snd st), Value c)]) (vs @ [Some n])
         (?c1, (snd st)\<lparr>pool_exprs := Suc (pool_exprs (snd st))\<rparr>) = Inr st2"
    and b2: "build g fn (Some k) (cs @ [(pool_exprs (snd st2), UnaryNot (Value c))])
         (vs @ [Some n]) (fst st2, (snd st2)\<lparr>pool_exprs := Suc (pool_exprs (snd st2))\<rparr>) = Inr st'"
    by (cases rule: build_cases) (use through_successor1 in auto)
  have sp2: "added_products ?c1 (fst st') ?s =
               added_products ?c1 (fst st2) ?s @ added_products (fst st2) (fst st') ?s"
    using added_products_split [OF build_appends [OF b1, simplified] build_appends [OF b2, simplified]] by simp
  from through_successor1(7) [OF b2] obtain ext where
    e: "map snd ext = conds"
       "(cs @ [(pool_exprs (snd st2), UnaryNot (Value c))]) @ ext \<in> set (added_products (fst st2) (fst st') ?s)"
    by auto
  have "cs @ ((pool_exprs (snd st2), UnaryNot (Value c)) # ext) \<in> set (added_products (fst st) (fst st') ?s)"
    unfolding split sp2 using e(2) by simp
  then show ?case using e(1)
    by (intro exI [of _ "(pool_exprs (snd st2), UnaryNot (Value c)) # ext"]) simp
next
  case (through_branch n vs s0 k conds m)
  let ?c1 = "push_condition (gn_node (nodeStorage g ! n)) cs (fst st)"
  let ?s = "gn_node (nodeStorage g ! m)"
  have split: "added_products (fst st) (fst st') ?s =
                 added_products (fst st) ?c1 ?s @ added_products ?c1 (fst st') ?s"
    using added_products_split [OF appends_push build_pushes] through_branch by blast
  from through_branch(8) through_branch(1)
  have "build g fn (Some k) cs (vs @ [Some n]) (?c1, snd st) = Inr st'"
    by (cases rule: build_cases) (use through_branch in auto)
  from through_branch(7) [OF this] show ?case unfolding split by auto
qed

text \<open>
  C2. Let a walk start at the node \<open>n\<close> with the condition stack \<open>cs\<close> and return. Then
  every statement has the products it had, followed by the ones the walk has added.
  Each added product of a statement \<open>s\<close> is \<open>cs\<close> followed by the branch predicates of a
  path from \<open>n\<close> to a node of \<open>s\<close>; and for each path from \<open>n\<close> to a node of \<open>s\<close>, the
  statement \<open>s\<close> has got the product of \<open>cs\<close> followed by the branch predicates of the
  path: every node the walk visits gets a product, once for each path to it. A path
  takes \<open>Value c\<close> through successor 0 and \<open>UnaryNot (Value c)\<close> through successor 1 of a
  conditional branch on \<open>c\<close>, and nothing at a node with a distinct exit or at an
  unconditional branch.

  At a node without a distinct exit whose entry block ends in a conditional branch on
  \<open>c\<close>, the walk goes into successor 0 with \<open>Value c\<close> pushed and then into successor 1
  with \<open>UnaryNot (Value c)\<close> pushed. At a node with a distinct exit it goes into the
  node of that exit with the condition stack as it is. It returns at once at a node on
  the visit stack; the region's exit is at the bottom of that stack from the start.
\<close>

theorem build_reaching_conditions:
  "(build g fn (Some n) cs visitStack st = Inr st' \<longrightarrow>
      products_of (fst st') s = products_of (fst st) s @ added_products (fst st) (fst st') s
      \<and> (\<forall>p \<in> set (added_products (fst st) (fst st') s).
            \<exists>ext m. p = cs @ ext \<and> reaches g fn visitStack n (map snd ext) m
                    \<and> gn_node (nodeStorage g ! m) = s)
      \<and> (reaches g fn visitStack n conds m \<and> gn_node (nodeStorage g ! m) = s \<longrightarrow>
            (\<exists>ext. map snd ext = conds \<and> cs @ ext \<in> set (added_products (fst st) (fst st') s))))
   \<and> (Some n \<notin> set visitStack \<and> n < length (nodeStorage g) \<and> \<not> hasExit (nodeStorage g ! n) \<and>
        getTerminator fn (gn_entry (nodeStorage g ! n)) = Some (CondBr c s0 s1) \<longrightarrow>
      build g fn (Some n) cs visitStack st =
        (case build g fn (getGraphNodeFromEntry g (Some s0))
                (cs @ [(pool_exprs (snd st), Value c)]) (visitStack @ [Some n])
                (push_condition (gn_node (nodeStorage g ! n)) cs (fst st),
                 (snd st)\<lparr>pool_exprs := Suc (pool_exprs (snd st))\<rparr>) of
           Inl e \<Rightarrow> Inl e
         | Inr st2 \<Rightarrow>
             build g fn (getGraphNodeFromEntry g (Some s1))
               (cs @ [(pool_exprs (snd st2), UnaryNot (Value c))]) (visitStack @ [Some n])
               (fst st2, (snd st2)\<lparr>pool_exprs := Suc (pool_exprs (snd st2))\<rparr>)))
   \<and> (Some n \<notin> set visitStack \<and> n < length (nodeStorage g) \<and> hasExit (nodeStorage g ! n) \<longrightarrow>
      build g fn (Some n) cs visitStack st =
        build g fn (getGraphNodeFromEntry g (gn_exit (nodeStorage g ! n))) cs (visitStack @ [Some n])
          (push_condition (gn_node (nodeStorage g ! n)) cs (fst st), snd st))
   \<and> (currentNode \<in> set visitStack \<longrightarrow> build g fn currentNode cs visitStack st = Inr st)
   \<and> buildSumsOfProducts g fn regionStart regionEnd st = build g fn regionStart [] [regionEnd] st
   \<and> build g fn regionEnd cs (regionEnd # visitStack) st = Inr st"
proof (intro conjI impI)
  assume b: "build g fn (Some n) cs visitStack st = Inr st'"
  show "products_of (fst st') s = products_of (fst st) s @ added_products (fst st) (fst st') s"
    using added_products_appends [OF build_appends [OF b]] .
  show "\<forall>p \<in> set (added_products (fst st) (fst st') s).
          \<exists>ext m. p = cs @ ext \<and> reaches g fn visitStack n (map snd ext) m
                  \<and> gn_node (nodeStorage g ! m) = s"
    using build_sound [OF b, of s] unfolding path_products_def by blast
next
  assume b: "build g fn (Some n) cs visitStack st = Inr st'"
    and r: "reaches g fn visitStack n conds m \<and> gn_node (nodeStorage g ! m) = s"
  show "\<exists>ext. map snd ext = conds \<and> cs @ ext \<in> set (added_products (fst st) (fst st') s)"
    using build_complete [OF conjunct1 [OF r] b] r by simp
next
  assume "Some n \<notin> set visitStack \<and> n < length (nodeStorage g) \<and> \<not> hasExit (nodeStorage g ! n) \<and>
        getTerminator fn (gn_entry (nodeStorage g ! n)) = Some (CondBr c s0 s1)"
  then show "build g fn (Some n) cs visitStack st =
        (case build g fn (getGraphNodeFromEntry g (Some s0))
                (cs @ [(pool_exprs (snd st), Value c)]) (visitStack @ [Some n])
                (push_condition (gn_node (nodeStorage g ! n)) cs (fst st),
                 (snd st)\<lparr>pool_exprs := Suc (pool_exprs (snd st))\<rparr>) of
           Inl e \<Rightarrow> Inl e
         | Inr st2 \<Rightarrow>
             build g fn (getGraphNodeFromEntry g (Some s1))
               (cs @ [(pool_exprs (snd st2), UnaryNot (Value c))]) (visitStack @ [Some n])
               (fst st2, (snd st2)\<lparr>pool_exprs := Suc (pool_exprs (snd st2))\<rparr>))"
    using build_conditional [of n visitStack g fn c s0 s1 cs st] by blast
next
  assume "Some n \<notin> set visitStack \<and> n < length (nodeStorage g) \<and> hasExit (nodeStorage g ! n)"
  then show "build g fn (Some n) cs visitStack st =
        build g fn (getGraphNodeFromEntry g (gn_exit (nodeStorage g ! n))) cs (visitStack @ [Some n])
          (push_condition (gn_node (nodeStorage g ! n)) cs (fst st), snd st)"
    using build_folded [of n visitStack g fn cs st] by blast
next
  assume "currentNode \<in> set visitStack"
  then show "build g fn currentNode cs visitStack st = Inr st" by (rule build_back_edge)
next
  show "buildSumsOfProducts g fn regionStart regionEnd st = build g fn regionStart [] [regionEnd] st"
    by (simp add: buildSumsOfProducts_def)
  show "build g fn regionEnd cs (regionEnd # visitStack) st = Inr st"
    by (simp add: build_back_edge)
qed

text \<open>
  The walk over the diamond, from the node of block 0 with the node of block 4 on the
  visit stack: the statement of block 2 gets \<open>Value 10\<close>, the one of block 3 its
  negation, the one of block 0 the empty product. The node of the structured diamond
  has a distinct exit.
\<close>

lemma diamond_nodes:
  "getGraphNodeFromEntry (snd diamond_grapher) (Some 0) = Some 3"
  "getGraphNodeFromEntry (snd diamond_grapher) (Some 2) = Some (Suc 0)"
  "getGraphNodeFromEntry (snd diamond_grapher) (Some 3) = Some 2"
  "getGraphNodeFromEntry (snd diamond_grapher) (Some 4) = Some 0"
  "length (nodeStorage (snd diamond_grapher)) = 4"
  by code_simp+

lemma diamond_entry_node:
  "\<not> hasExit (nodeStorage (snd diamond_grapher) ! 3)"
  "getTerminator diamond (gn_entry (nodeStorage (snd diamond_grapher) ! 3)) = Some (CondBr 10 2 3)"
  "gn_node (nodeStorage (snd diamond_grapher) ! 3) = 5"
  "gn_node (nodeStorage (snd diamond_grapher) ! 2) = 4"
  "pool_exprs (fst diamond_grapher) = 0"
  by code_simp+

lemma diamond_walk:
  "(case build (snd diamond_grapher) diamond (Some 3) [] [Some 0] (\<lambda>s. None, fst diamond_grapher) of
      Inl e \<Rightarrow> False
    | Inr st \<Rightarrow> map (products_of (fst st)) [0, 1, 2, 3, 4, 5, 6] =
        [[], [], [[(0, Value 10)]], [], [[(1, UnaryNot (Value 10))]], [[]], []])"
  by code_simp

lemma diamond_walk_returns:
  "build (snd diamond_grapher) diamond (Some 3) [] [Some 0] (\<lambda>s. None, fst diamond_grapher) =
     Inr diamond_conditions"
  using diamond_walk unfolding diamond_conditions_def
  by (cases "build (snd diamond_grapher) diamond (Some 3) [] [Some 0] (\<lambda>s. None, fst diamond_grapher)")
     simp_all

lemma diamond_products:
  "products_of (fst diamond_conditions) 2 = [[(0, Value 10)]]"
  "products_of (fst diamond_conditions) 4 = [[(1, UnaryNot (Value 10))]]"
  "products_of (fst diamond_conditions) 5 = [[]]"
  using diamond_walk unfolding diamond_walk_returns by simp_all

lemma diamond_path:
  "reaches (snd diamond_grapher) diamond [Some 0] 3 [UnaryNot (Value 10)] 2"
proof -
  have "reaches (snd diamond_grapher) diamond ([Some 0] @ [Some 3]) 2 [] 2"
    by (rule reaches.arrived) (simp_all add: diamond_nodes)
  then show ?thesis
    by (rule reaches.through_successor1 [where ?s0.0 = 2 and ?s1.0 = 3, rotated -1])
       (simp_all add: diamond_nodes diamond_entry_node)
qed

lemma diamond_folded_node:
  "length (nodeStorage (snd diamond_folded)) = 5"
  "hasExit (nodeStorage (snd diamond_folded) ! 4)"
  "gn_exit (nodeStorage (snd diamond_folded) ! 4) = Some 4"
  "gn_node (nodeStorage (snd diamond_folded) ! 4) = 7"
  "getGraphNodeFromEntry (snd diamond_folded) (Some 0) = Some 4"
  "getGraphNodeFromEntry (snd diamond_folded) (Some 4) = Some 0"
  by code_simp+

theorem build_reaching_conditions_witness:
  "build (snd diamond_grapher) diamond (Some 3) [] [Some 0] (\<lambda>s. None, fst diamond_grapher) =
     Inr diamond_conditions
   \<and> products_of (fst diamond_conditions) 2 = [[(0, Value 10)]]
   \<and> (\<exists>m. reaches (snd diamond_grapher) diamond [Some 0] 3 [Value 10] m
          \<and> gn_node (nodeStorage (snd diamond_grapher) ! m) = 2)
   \<and> reaches (snd diamond_grapher) diamond [Some 0] 3 [UnaryNot (Value 10)] 2
   \<and> gn_node (nodeStorage (snd diamond_grapher) ! 2) = 4
   \<and> (\<exists>ext. map snd ext = [UnaryNot (Value 10)]
          \<and> ext \<in> set (products_of (fst diamond_conditions) 4))
   \<and> Some (3::nat) \<notin> set [Some 0] \<and> 3 < length (nodeStorage (snd diamond_grapher))
   \<and> \<not> hasExit (nodeStorage (snd diamond_grapher) ! 3)
   \<and> getTerminator diamond (gn_entry (nodeStorage (snd diamond_grapher) ! 3)) = Some (CondBr 10 2 3)
   \<and> build (snd diamond_grapher) diamond (Some 3) [] [Some 0] (\<lambda>s. None, fst diamond_grapher) =
       (case build (snd diamond_grapher) diamond (Some (Suc 0))
               [(0, Value 10)] [Some 0, Some 3]
               (push_condition 5 [] (\<lambda>s. None), (fst diamond_grapher)\<lparr>pool_exprs := Suc 0\<rparr>) of
          Inl e \<Rightarrow> Inl e
        | Inr st2 \<Rightarrow>
            build (snd diamond_grapher) diamond (Some 2)
              [(pool_exprs (snd st2), UnaryNot (Value 10))] [Some 0, Some 3]
              (fst st2, (snd st2)\<lparr>pool_exprs := Suc (pool_exprs (snd st2))\<rparr>))
   \<and> Some (4::nat) \<notin> set [None] \<and> 4 < length (nodeStorage (snd diamond_folded))
   \<and> hasExit (nodeStorage (snd diamond_folded) ! 4)
   \<and> build (snd diamond_folded) diamond (Some 4) [] [None] (\<lambda>s. None, fst diamond_folded) =
       build (snd diamond_folded) diamond (Some 0) [] [None, Some 4]
         (push_condition 7 [] (\<lambda>s. None), fst diamond_folded)
   \<and> Some (0::nat) \<in> set [Some 0, Some 3, Some (Suc 0)]
   \<and> build (snd diamond_grapher) diamond (Some 0) [(0, Value 10)] [Some 0, Some 3, Some (Suc 0)]
         (\<lambda>s. None, empty_pool) = Inr (\<lambda>s. None, empty_pool)"
proof -
  let ?g = "snd diamond_grapher" and ?st = "(\<lambda>s. None, fst diamond_grapher)"
  note t2 = build_reaching_conditions [where g = ?g and fn = diamond and n = 3 and cs = "[]"
      and visitStack = "[Some 0]" and st = ?st and st' = diamond_conditions and s = 2
      and c = 10 and ?s0.0 = 2 and ?s1.0 = 3]
  note t4 = build_reaching_conditions [where g = ?g and fn = diamond and n = 3 and cs = "[]"
      and visitStack = "[Some 0]" and st = ?st and st' = diamond_conditions and s = 4
      and conds = "[UnaryNot (Value 10)]" and m = 2]
  note tf = build_reaching_conditions [where g = "snd diamond_folded" and fn = diamond and n = 4
      and cs = "[]" and visitStack = "[None]" and st = "(\<lambda>s. None, fst diamond_folded)"]
  note tb = build_reaching_conditions [where g = ?g and fn = diamond and cs = "[(0, Value 10)]"
      and visitStack = "[Some 0, Some 3, Some (Suc 0)]" and st = "(\<lambda>s. None, empty_pool)"
      and currentNode = "Some 0"]
  have added: "added_products (\<lambda>s. None) (fst diamond_conditions) s = products_of (fst diamond_conditions) s"
    for s by (simp add: added_products_def products_of_def)
  have a: "\<exists>m. reaches ?g diamond [Some 0] 3 [Value 10] m \<and> gn_node (nodeStorage ?g ! m) = 2"
  proof -
    from conjunct1 [OF t2] diamond_walk_returns
    have "\<forall>p \<in> set (products_of (fst diamond_conditions) 2).
            \<exists>ext m. p = [] @ ext \<and> reaches ?g diamond [Some 0] 3 (map snd ext) m
                    \<and> gn_node (nodeStorage ?g ! m) = 2"
      by (simp add: added)
    then show ?thesis by (simp add: diamond_products)
  qed
  have b: "\<exists>ext. map snd ext = [UnaryNot (Value 10)]
             \<and> ext \<in> set (products_of (fst diamond_conditions) 4)"
    using conjunct1 [OF t4] diamond_walk_returns diamond_path diamond_entry_node(4)
    by (simp add: added)
  have h: "Some (3::nat) \<notin> set [Some 0] \<and> 3 < length (nodeStorage ?g)
     \<and> \<not> hasExit (nodeStorage ?g ! 3)
     \<and> getTerminator diamond (gn_entry (nodeStorage ?g ! 3)) = Some (CondBr 10 2 3)"
    using diamond_entry_node diamond_nodes(5) by simp
  have e: "build ?g diamond (Some 3) [] [Some 0] ?st =
       (case build ?g diamond (Some (Suc 0)) [(0, Value 10)] [Some 0, Some 3]
               (push_condition 5 [] (\<lambda>s. None), (fst diamond_grapher)\<lparr>pool_exprs := Suc 0\<rparr>) of
          Inl e \<Rightarrow> Inl e
        | Inr st2 \<Rightarrow>
            build ?g diamond (Some 2)
              [(pool_exprs (snd st2), UnaryNot (Value 10))] [Some 0, Some 3]
              (fst st2, (snd st2)\<lparr>pool_exprs := Suc (pool_exprs (snd st2))\<rparr>))"
    using conjunct1 [OF conjunct2 [OF t2]] h
    by (simp add: diamond_entry_node diamond_nodes cong: sum.case_cong)
  have hf: "Some (4::nat) \<notin> set [None] \<and> 4 < length (nodeStorage (snd diamond_folded))
     \<and> hasExit (nodeStorage (snd diamond_folded) ! 4)"
    using diamond_folded_node by simp
  have f: "build (snd diamond_folded) diamond (Some 4) [] [None] (\<lambda>s. None, fst diamond_folded) =
       build (snd diamond_folded) diamond (Some 0) [] [None, Some 4]
         (push_condition 7 [] (\<lambda>s. None), fst diamond_folded)"
    using conjunct1 [OF conjunct2 [OF conjunct2 [OF tf]]] hf
    by (simp add: diamond_folded_node)
  have k: "build ?g diamond (Some 0) [(0, Value 10)] [Some 0, Some 3, Some (Suc 0)]
         (\<lambda>s. None, empty_pool) = Inr (\<lambda>s. None, empty_pool)"
    using conjunct1 [OF conjunct2 [OF conjunct2 [OF conjunct2 [OF tb]]]] by simp
  show ?thesis
    using diamond_walk_returns diamond_products(1) a diamond_path diamond_entry_node(4) b h e hf f k
    by simp
qed

section \<open>The registered AST of a region\<close>

lemma registered_after_update:
  "registered_ast (snd (allocate_stmt s pool), updateRegion entry exit (fst (allocate_stmt s pool)) g) entry = Some s"
  by (simp add: registered_ast_def updateRegion_def allocate_stmt_def stmt_at_def)

lemma stmt_at_placeStatement:
  "stmt_at (snd (placeStatement pointer s pool)) (fst (placeStatement pointer s pool)) = Some s"
  by (simp add: placeStatement_def allocate_stmt_def stmt_at_def split: option.splits)

lemma registered_after_place:
  "placeStatement pointer s pool = (node, pool') \<Longrightarrow>
   registered_ast (pool', updateRegion entry exit node g) entry = Some s"
  using stmt_at_placeStatement [of pointer s pool]
  by (simp add: registered_ast_def updateRegion_def)

text \<open>
  C7. When \<open>runOnRegion\<close> or \<open>runOnLoop\<close> returns, the statement registered for the
  region's entry block has no \<open>IfElse\<close>, at any depth, with an else branch and a
  condition that is a negation.
\<close>

theorem registered_region_ifelse_normal:
  "(runOnRegion fn entry exit pg = Inr pg' \<longrightarrow>
      (\<exists>s. registered_ast pg' entry = Some s \<and> ifelse_normal s))
   \<and> (runOnLoop fn entry exit pg = Inr pg' \<longrightarrow>
      (\<exists>s. registered_ast pg' entry = Some s \<and> ifelse_normal s))"
proof (intro conjI impI)
  assume a: "runOnRegion fn entry exit pg = Inr pg'"
  then obtain sp simplified where sp: "structurizeRegion fn entry exit pg = Inr sp"
    and s: "recursivelySimplifyStatement (fst sp) = Some simplified"
    and pg': "pg' = (snd (placeStatement
                            (returnedStatement (snd (snd sp)) (fst sp) (fst (snd sp)) simplified)
                            simplified (snd (snd sp))),
                    updateRegion entry exit
                      (fst (placeStatement
                              (returnedStatement (snd (snd sp)) (fst sp) (fst (snd sp)) simplified)
                              simplified (snd (snd sp))))
                      (snd pg))"
    by (auto simp: runOnRegion_def split: sum.splits option.splits prod.splits)
  have "ifelse_normal simplified" using ifelse_normal_simplify(1) s by blast
  then show "\<exists>s. registered_ast pg' entry = Some s \<and> ifelse_normal s"
    unfolding pg' by (simp add: registered_after_place)
next
  assume a: "runOnLoop fn entry exit pg = Inr pg'"
  then obtain sp simplified where sp: "structurizeRegion fn entry exit pg = Inr sp"
    and s: "recursivelySimplifyStatement (fst sp) = Some simplified"
    and pg': "pg' = (snd (allocate_stmt (Loop None simplified Endless) (snd (snd sp))),
                    updateRegion entry exit
                      (fst (allocate_stmt (Loop None simplified Endless) (snd (snd sp)))) (snd pg))"
    by (auto simp: runOnLoop_def split: sum.splits option.splits prod.splits)
  have "ifelse_normal simplified" using ifelse_normal_simplify(1) s by blast
  then show "\<exists>s. registered_ast pg' entry = Some s \<and> ifelse_normal s"
    unfolding pg' by (simp add: registered_after_update)
qed

lemma diamond_region:
  "(case runOnRegion diamond 0 (Some 4) diamond_grapher of
      Inl e \<Rightarrow> False
    | Inr pg \<Rightarrow> registered_ast pg 0 =
        Some (Sequence [Expression (Value 10),
                IfElse (Value 10) (Expression (Value 12)) (Some (Sequence []))]))"
  by code_simp

lemma diamond_loop:
  "(case runOnLoop diamond 0 (Some 4) diamond_grapher of
      Inl e \<Rightarrow> False
    | Inr pg \<Rightarrow> registered_ast pg 0 =
        Some (Loop None (Sequence [Expression (Value 10),
                IfElse (Value 10) (Expression (Value 12)) (Some (Sequence []))]) Endless))"
  by code_simp

theorem registered_region_ifelse_normal_witness:
  "registered_ast (projr (runOnRegion diamond 0 (Some 4) diamond_grapher)) 0 =
     Some (Sequence [Expression (Value 10),
             IfElse (Value 10) (Expression (Value 12)) (Some (Sequence []))])
   \<and> ifelse_normal (the (registered_ast (projr (runOnRegion diamond 0 (Some 4) diamond_grapher)) 0))
   \<and> registered_ast (projr (runOnLoop diamond 0 (Some 4) diamond_grapher)) 0 =
     Some (Loop None (Sequence [Expression (Value 10),
             IfElse (Value 10) (Expression (Value 12)) (Some (Sequence []))]) Endless)
   \<and> ifelse_normal (the (registered_ast (projr (runOnLoop diamond 0 (Some 4) diamond_grapher)) 0))"
proof -
  obtain pg where r: "runOnRegion diamond 0 (Some 4) diamond_grapher = Inr pg"
    using diamond_region by (cases "runOnRegion diamond 0 (Some 4) diamond_grapher") auto
  obtain pl where l: "runOnLoop diamond 0 (Some 4) diamond_grapher = Inr pl"
    using diamond_loop by (cases "runOnLoop diamond 0 (Some 4) diamond_grapher") auto
  from registered_region_ifelse_normal [of diamond 0 "Some 4" diamond_grapher pg] r
  have 1: "ifelse_normal (the (registered_ast pg 0))" by auto
  from registered_region_ifelse_normal [of diamond 0 "Some 4" diamond_grapher pl] l
  have 2: "ifelse_normal (the (registered_ast pl 0))" by auto
  show ?thesis using 1 2 diamond_region diamond_loop r l by simp
qed

text \<open>
  The pointer that \<^verbatim>\<open>runOnRegion\<close> registers can be a statement that a graph node has
  already. In \<open>chain\<close>, the region of block 2 is its expression statement, at the
  address 1; the region from block 0 to the end has that statement only, so the
  simplifier returns it, and \<^verbatim>\<open>updateRegion\<close> points the statement to the new graph
  node: from then on block 2 resolves to the node of the region that starts at block 0.
\<close>

lemma shared_statement:
  "(case runOnModule (\<lambda>tv. 0) (\<lambda>f. chain_an) [chain] blank_backend of
      Inl e \<Rightarrow> False
    | Inr be \<Rightarrow>
        nodeStorage (be_grapher be) =
          [\<lparr>gn_node = 0, gn_entry = 2, gn_exit = Some 2\<rparr>,
           \<lparr>gn_node = Suc 0, gn_entry = 2, gn_exit = None\<rparr>,
           \<lparr>gn_node = 2, gn_entry = 0, gn_exit = Some 0\<rparr>,
           \<lparr>gn_node = 3, gn_entry = 0, gn_exit = Some 2\<rparr>,
           \<lparr>gn_node = Suc 0, gn_entry = 0, gn_exit = None\<rparr>]
        \<and> pool_stmts (be_pool be) =
          [Sequence [Expression (Value 51)], Expression (Value 51), Sequence [], Sequence []]
        \<and> nodeByEntry (be_grapher be) 0 = Some (Suc 0)
        \<and> nodeByEntry (be_grapher be) 2 = Some (Suc 0)
        \<and> graphNodeByAstNode (be_grapher be) (Suc 0) = Some 4
        \<and> getGraphNodeFromEntry (be_grapher be) (Some 2) = Some 4)"
  by code_simp

section \<open>Properties of the driver\<close>

lemma grapher_extends_refl: "grapher_extends pg pg"
  by (simp add: grapher_extends_def)

lemma grapher_extends_trans:
  assumes ab: "grapher_extends a b" and bc: "grapher_extends b c"
  shows "grapher_extends a c"
proof -
  from ab obtain n1 where A: "length (pool_stmts (fst a)) \<le> length (pool_stmts (fst b))"
    "\<forall>r < length (pool_stmts (fst a)).
         pool_stmts (fst b) ! r = pool_stmts (fst a) ! r \<or>
         (\<exists>k \<ge> length (nodeStorage (snd a)). graphNodeByAstNode (snd b) r = Some k)"
    "nodeStorage (snd b) = nodeStorage (snd a) @ n1"
    "\<forall>x. nodeByEntry (snd a) x \<noteq> None \<longrightarrow> nodeByEntry (snd b) x \<noteq> None"
    "\<forall>s. graphNodeByAstNode (snd b) s = graphNodeByAstNode (snd a) s \<or>
           (\<exists>k \<ge> length (nodeStorage (snd a)). graphNodeByAstNode (snd b) s = Some k)"
    unfolding grapher_extends_def by blast
  from bc obtain n2 where B: "length (pool_stmts (fst b)) \<le> length (pool_stmts (fst c))"
    "\<forall>r < length (pool_stmts (fst b)).
         pool_stmts (fst c) ! r = pool_stmts (fst b) ! r \<or>
         (\<exists>k \<ge> length (nodeStorage (snd b)). graphNodeByAstNode (snd c) r = Some k)"
    "nodeStorage (snd c) = nodeStorage (snd b) @ n2"
    "\<forall>x. nodeByEntry (snd b) x \<noteq> None \<longrightarrow> nodeByEntry (snd c) x \<noteq> None"
    "\<forall>s. graphNodeByAstNode (snd c) s = graphNodeByAstNode (snd b) s \<or>
           (\<exists>k \<ge> length (nodeStorage (snd b)). graphNodeByAstNode (snd c) s = Some k)"
    unfolding grapher_extends_def by blast
  have len: "length (nodeStorage (snd a)) \<le> length (nodeStorage (snd b))" using A(3) by simp
  have later: "\<exists>k \<ge> length (nodeStorage (snd a)). graphNodeByAstNode (snd c) s = Some k"
    if "k \<ge> length (nodeStorage (snd a))" "graphNodeByAstNode (snd b) s = Some k" for s k
  proof -
    from B(5) consider "graphNodeByAstNode (snd c) s = graphNodeByAstNode (snd b) s"
      | k' where "k' \<ge> length (nodeStorage (snd b))" "graphNodeByAstNode (snd c) s = Some k'"
      by blast
    then show ?thesis
    proof cases
      case 1
      then show ?thesis using that by simp
    next
      case 2
      then have "k' \<ge> length (nodeStorage (snd a))" using len by simp
      then show ?thesis using 2(2) by blast
    qed
  qed
  have newer: "\<exists>k \<ge> length (nodeStorage (snd a)). graphNodeByAstNode (snd c) s = Some k"
    if "k \<ge> length (nodeStorage (snd b))" "graphNodeByAstNode (snd c) s = Some k" for s k
  proof -
    have "k \<ge> length (nodeStorage (snd a))" using that(1) len by simp
    then show ?thesis using that(2) by blast
  qed
  have idx: "graphNodeByAstNode (snd c) s = graphNodeByAstNode (snd a) s \<or>
           (\<exists>k \<ge> length (nodeStorage (snd a)). graphNodeByAstNode (snd c) s = Some k)" for s
  proof -
    from B(5) consider "graphNodeByAstNode (snd c) s = graphNodeByAstNode (snd b) s"
      | k where "k \<ge> length (nodeStorage (snd b))" "graphNodeByAstNode (snd c) s = Some k"
      by blast
    then show ?thesis
    proof cases
      case same: 1
      from A(5) consider "graphNodeByAstNode (snd b) s = graphNodeByAstNode (snd a) s"
        | k where "k \<ge> length (nodeStorage (snd a))" "graphNodeByAstNode (snd b) s = Some k"
        by blast
      then show ?thesis
      proof cases
        case 1
        then show ?thesis using same by simp
      next
        case 2
        then show ?thesis using later by blast
      qed
    next
      case 2
      then show ?thesis using newer by blast
    qed
  qed
  have arena: "pool_stmts (fst c) ! r = pool_stmts (fst a) ! r \<or>
         (\<exists>k \<ge> length (nodeStorage (snd a)). graphNodeByAstNode (snd c) r = Some k)"
    if r: "r < length (pool_stmts (fst a))" for r
  proof -
    have rb: "r < length (pool_stmts (fst b))" using r A(1) by simp
    from B(2) rb consider "pool_stmts (fst c) ! r = pool_stmts (fst b) ! r"
      | k where "k \<ge> length (nodeStorage (snd b))" "graphNodeByAstNode (snd c) r = Some k"
      by blast
    then show ?thesis
    proof cases
      case same: 1
      from A(2) r consider "pool_stmts (fst b) ! r = pool_stmts (fst a) ! r"
        | k where "k \<ge> length (nodeStorage (snd a))" "graphNodeByAstNode (snd b) r = Some k"
        by blast
      then show ?thesis
      proof cases
        case 1
        then show ?thesis using same by simp
      next
        case 2
        then show ?thesis using later by blast
      qed
    next
      case 2
      then show ?thesis using newer by blast
    qed
  qed
  have "length (pool_stmts (fst a)) \<le> length (pool_stmts (fst c))" using A(1) B(1) by simp
  moreover have "nodeStorage (snd c) = nodeStorage (snd a) @ (n1 @ n2)" using A(3) B(3) by simp
  moreover have "\<forall>x. nodeByEntry (snd a) x \<noteq> None \<longrightarrow> nodeByEntry (snd c) x \<noteq> None"
    using A(4) B(4) by blast
  ultimately show ?thesis unfolding grapher_extends_def using idx arena by blast
qed

lemma build_pool_stmts:
  "build g fn currentNode cs visitStack st = Inr st' \<Longrightarrow> pool_stmts (snd st') = pool_stmts (snd st)"
proof (induction g fn currentNode cs visitStack st arbitrary: st' rule: build.induct)
  case (1 g fn currentNode conditionStack visitStack st)
  note res = 1(5)
  show ?case
  proof (cases "currentNode \<in> set visitStack")
    case True
    then show ?thesis using res by (simp add: build_back_edge)
  next
    case nv: False
    then obtain n where cn: "currentNode = Some n" using res
      by (cases currentNode) (auto simp: build.simps [of g fn None])
    have nlt: "n < length (nodeStorage g)" using res nv cn
      by (subst (asm) build.simps) (auto split: if_splits)
    have nn: "\<not> \<not> n < length (nodeStorage g)" using nlt by simp
    have nv': "Some n \<notin> set visitStack" using nv cn by simp
    let ?node = "nodeStorage g ! n"
    let ?c1 = "push_condition (gn_node ?node) conditionStack (fst st)"
    show ?thesis
    proof (cases "hasExit ?node")
      case True
      have "build g fn (getGraphNodeFromEntry g (gn_exit ?node)) conditionStack (visitStack @ [currentNode])
              (?c1, snd st) = Inr st'"
        using res build_folded [OF nv' nlt True, of fn conditionStack st] cn by simp
      from 1(1) [OF nv cn nn True this] show ?thesis by simp
    next
      case ne: False
      obtain k where k: "getTerminator fn (gn_entry ?node) = Some k" using res nv' nlt ne cn
        by (subst (asm) build.simps) (auto split: option.splits)
      show ?thesis
      proof (cases "isBranchInst k")
        case False
        then have "st' = (?c1, snd st)"
          using res build_other [OF nv' nlt ne k, of conditionStack st] cn by simp
        then show ?thesis by simp
      next
        case True
        then consider (br) s0 where "k = Br s0" | (cond) c s0 s1 where "k = CondBr c s0 s1"
          by (cases k) auto
        then show ?thesis
        proof cases
          case br
          have "build g fn (getGraphNodeFromEntry g (Some s0)) conditionStack (visitStack @ [currentNode])
                  (?c1, snd st) = Inr st'"
            using res build_unconditional [OF nv' nlt ne, of fn s0 conditionStack st] k br cn by simp
          from 1(2) [OF nv cn nn ne k br this] show ?thesis by simp
        next
          case cond
          let ?t = "fst (allocate_expr (Value c) (snd st))"
          let ?p1 = "snd (allocate_expr (Value c) (snd st))"
          have eq: "build g fn (Some n) conditionStack visitStack st =
             (case build g fn (getGraphNodeFromEntry g (Some s0)) (conditionStack @ [?t])
                     (visitStack @ [Some n]) (?c1, ?p1) of
                Inl e \<Rightarrow> Inl e
              | Inr st2 \<Rightarrow>
                  build g fn (getGraphNodeFromEntry g (Some s1))
                    (conditionStack @ [fst (allocate_expr (UnaryNot (Value c)) (snd st2))])
                    (visitStack @ [Some n])
                    (fst st2, snd (allocate_expr (UnaryNot (Value c)) (snd st2))))"
            using nv' nlt ne k cond by (subst build.simps) simp
          then obtain st2 where b1: "build g fn (getGraphNodeFromEntry g (Some s0)) (conditionStack @ [?t])
                     (visitStack @ [currentNode]) (?c1, ?p1) = Inr st2"
            and b2: "build g fn (getGraphNodeFromEntry g (Some s1))
                    (conditionStack @ [fst (allocate_expr (UnaryNot (Value c)) (snd st2))])
                    (visitStack @ [currentNode])
                    (fst st2, snd (allocate_expr (UnaryNot (Value c)) (snd st2))) = Inr st'"
            using res cn by (auto split: sum.splits)
          have r1: "pool_stmts (snd st2) = pool_stmts (snd st)"
            using 1(3) [OF nv cn nn ne k cond b1] by (simp add: allocate_expr_def)
          have r2: "pool_stmts (snd st') = pool_stmts (snd st2)"
            using 1(4) [OF nv cn nn ne k cond b1 b2] by (simp add: allocate_expr_def)
          show ?thesis using r1 r2 by simp
        qed
      qed
    qed
  qed
qed

lemma structurizeRegion_pool_stmts:
  "structurizeRegion fn entry exit pg = Inr sp \<Longrightarrow> pool_stmts (snd (snd sp)) = pool_stmts (fst pg)"
proof -
  assume a: "structurizeRegion fn entry exit pg = Inr sp"
  then obtain reach where b: "buildSumsOfProducts (snd pg) fn (getGraphNodeFromEntry (snd pg) (Some entry))
             (getGraphNodeFromEntry (snd pg) exit) (\<lambda>s. None, fst pg) = Inr reach"
    and sp: "snd (snd sp) = snd reach"
    unfolding structurizeRegion_def by (auto split: sum.splits)
  from build_pool_stmts [OF b [unfolded buildSumsOfProducts_def]]
  show ?thesis using sp by simp
qed

lemma updateRegion_extends:
  assumes "length (pool_stmts pool) \<le> length (pool_stmts pool')"
    and "\<forall>r < length (pool_stmts pool). r \<noteq> node \<longrightarrow> pool_stmts pool' ! r = pool_stmts pool ! r"
  shows "grapher_extends (pool, g) (pool', updateRegion entry exit node g)"
  using assms by (auto simp: grapher_extends_def updateRegion_def)

lemma placeStatement_arena:
  "length (pool_stmts pool) \<le> length (pool_stmts (snd (placeStatement pointer s pool)))
   \<and> (\<forall>r < length (pool_stmts pool). r \<noteq> fst (placeStatement pointer s pool) \<longrightarrow>
         pool_stmts (snd (placeStatement pointer s pool)) ! r = pool_stmts pool ! r)"
  by (auto simp: placeStatement_def allocate_stmt_def nth_append split: option.splits)

lemma runOnRegion_result:
  assumes "runOnRegion fn entry exit pg = Inr pg'"
  shows "\<exists>node pool'. length (pool_stmts (fst pg)) \<le> length (pool_stmts pool')
     \<and> (\<forall>r < length (pool_stmts (fst pg)). r \<noteq> node \<longrightarrow>
            pool_stmts pool' ! r = pool_stmts (fst pg) ! r)
     \<and> pg' = (pool', updateRegion entry exit node (snd pg))"
proof -
  from assms obtain sp simplified where sp: "structurizeRegion fn entry exit pg = Inr sp"
    and s: "recursivelySimplifyStatement (fst sp) = Some simplified"
    and pg': "pg' = (snd (placeStatement
                            (returnedStatement (snd (snd sp)) (fst sp) (fst (snd sp)) simplified)
                            simplified (snd (snd sp))),
                    updateRegion entry exit
                      (fst (placeStatement
                              (returnedStatement (snd (snd sp)) (fst sp) (fst (snd sp)) simplified)
                              simplified (snd (snd sp))))
                      (snd pg))"
    by (auto simp: runOnRegion_def split: sum.splits option.splits prod.splits)
  show ?thesis
    using placeStatement_arena [of "snd (snd sp)"
        "returnedStatement (snd (snd sp)) (fst sp) (fst (snd sp)) simplified" simplified]
      pg' structurizeRegion_pool_stmts [OF sp]
    by auto
qed

lemma runOnLoop_result:
  assumes "runOnLoop fn entry exit pg = Inr pg'"
  shows "\<exists>node pool'. length (pool_stmts (fst pg)) \<le> length (pool_stmts pool')
     \<and> (\<forall>r < length (pool_stmts (fst pg)). r \<noteq> node \<longrightarrow>
            pool_stmts pool' ! r = pool_stmts (fst pg) ! r)
     \<and> pg' = (pool', updateRegion entry exit node (snd pg))"
proof -
  from assms obtain sp simplified where sp: "structurizeRegion fn entry exit pg = Inr sp"
    and s: "recursivelySimplifyStatement (fst sp) = Some simplified"
    and pg': "pg' = (snd (allocate_stmt (Loop None simplified Endless) (snd (snd sp))),
                    updateRegion entry exit
                      (fst (allocate_stmt (Loop None simplified Endless) (snd (snd sp)))) (snd pg))"
    by (auto simp: runOnLoop_def split: sum.splits option.splits prod.splits)
  show ?thesis
    using pg' structurizeRegion_pool_stmts [OF sp]
    by (auto simp: allocate_stmt_def nth_append)
qed

lemma runOnRegion_extends:
  assumes "runOnRegion fn entry exit pg = Inr pg'"
  shows "grapher_extends pg pg'"
proof -
  from runOnRegion_result [OF assms] obtain node pool' where
    1: "length (pool_stmts (fst pg)) \<le> length (pool_stmts pool')"
       "\<forall>r < length (pool_stmts (fst pg)). r \<noteq> node \<longrightarrow>
            pool_stmts pool' ! r = pool_stmts (fst pg) ! r"
       "pg' = (pool', updateRegion entry exit node (snd pg))"
    by blast
  have "grapher_extends (fst pg, snd pg) (pool', updateRegion entry exit node (snd pg))"
    using 1(1,2) by (rule updateRegion_extends)
  then show ?thesis using 1(3) by simp
qed

lemma runOnLoop_extends:
  assumes "runOnLoop fn entry exit pg = Inr pg'"
  shows "grapher_extends pg pg'"
proof -
  from runOnLoop_result [OF assms] obtain node pool' where
    1: "length (pool_stmts (fst pg)) \<le> length (pool_stmts pool')"
       "\<forall>r < length (pool_stmts (fst pg)). r \<noteq> node \<longrightarrow>
            pool_stmts pool' ! r = pool_stmts (fst pg) ! r"
       "pg' = (pool', updateRegion entry exit node (snd pg))"
    by blast
  have "grapher_extends (fst pg, snd pg) (pool', updateRegion entry exit node (snd pg))"
    using 1(1,2) by (rule updateRegion_extends)
  then show ?thesis using 1(3) by simp
qed

lemma runOnRegion_entries:
  assumes "runOnRegion fn entry exit pg = Inr pg'" and "b \<noteq> entry"
  shows "nodeByEntry (snd pg') b = nodeByEntry (snd pg) b"
  using runOnRegion_result [OF assms(1)] assms(2) by (auto simp: updateRegion_def)

lemma runOnLoop_entries:
  assumes "runOnLoop fn entry exit pg = Inr pg'" and "b \<noteq> entry"
  shows "nodeByEntry (snd pg') b = nodeByEntry (snd pg) b"
  using runOnLoop_result [OF assms(1)] assms(2) by (auto simp: updateRegion_def)

lemma addBasicBlock_extends: "grapher_extends pg (snd (addBasicBlock fn bb pg))"
  by (cases pg) (auto simp: grapher_extends_def addBasicBlock_def allocate_stmt_def nth_append)

lemma addBasicBlock_entries:
  "b \<noteq> bb \<Longrightarrow> nodeByEntry (snd (snd (addBasicBlock fn bb pg))) b = nodeByEntry (snd pg) b"
  by (cases pg) (simp add: addBasicBlock_def allocate_stmt_def)

lemma climb_invariant:
  assumes refl: "\<And>x. R x x"
    and trans: "\<And>x y z. R x y \<Longrightarrow> R y z \<Longrightarrow> R x z"
  shows "climb fuel pick fn an entry domNode st = Inr st' \<Longrightarrow>
         \<forall>exit pg pg'. runOnLoop fn entry exit pg = Inr pg' \<longrightarrow> R pg pg' \<Longrightarrow>
         \<forall>exit pg pg'. runOnRegion fn entry exit pg = Inr pg' \<longrightarrow> R pg pg' \<Longrightarrow>
         R (fst st) (fst st')"
proof (induction fuel pick fn an entry domNode st arbitrary: st' rule: climb.induct)
  case (1 fuel pick fn an entry st)
  then show ?case by (simp add: refl)
next
  case (2 pick fn an entry blk st)
  then show ?case by simp
next
  case (3 fuel pick fn an entry blk st)
  note res = 3(4) and loop = 3(5) [rule_format] and region = 3(6) [rule_format]
  from res obtain gi where gi: "getGraphNodeFromEntry (snd (fst st)) blk = Some gi"
    by (auto split: option.splits)
  have lt: "gi < length (nodeStorage (snd (fst st)))" using res gi
    by (auto split: if_splits)
  have nlt: "\<not> \<not> gi < length (nodeStorage (snd (fst st)))" using lt by simp
  let ?succ = "(if hasExit (nodeStorage (snd (fst st)) ! gi)
                   then Inr (pdt_getNode an (gn_exit (nodeStorage (snd (fst st)) ! gi)))
                   else (case pdt_getNode an (gn_exit (nodeStorage (snd (fst st)) ! gi)) of
                           None \<Rightarrow> Inl NullDereference
                         | Some b \<Rightarrow> Inr (pdt_getIDom an b)))"
  from res gi lt obtain successor where su: "?succ = Inr successor"
    by (cases ?succ) auto
  show ?case
  proof (cases "isRegion pick fn an entry (node_block successor)")
    case True
    show ?thesis
    proof (cases "entry \<in> set (snd st)")
      case isback: True
      from res gi lt su True isback obtain pg where
        r: "runOnLoop fn entry (node_block successor) (fst st) = Inr pg"
        and c: "climb fuel pick fn an entry successor (pg, removeAll entry (snd st)) = Inr st'"
        by (auto split: sum.splits)
      have "R (fst (pg, removeAll entry (snd st))) (fst st')"
        using 3(1) [OF gi nlt su True isback r c 3(5) 3(6)] .
      then show ?thesis using loop [OF r] by (auto intro: trans)
    next
      case noback: False
      from res gi lt su True noback obtain pg where
        r: "runOnRegion fn entry (node_block successor) (fst st) = Inr pg"
        and c: "climb fuel pick fn an entry successor (pg, snd st) = Inr st'"
        by (auto split: sum.splits)
      have "R (fst (pg, snd st)) (fst st')"
        using 3(2) [OF gi nlt su True noback r c 3(5) 3(6)] .
      then show ?thesis using region [OF r] by (auto intro: trans)
    qed
  next
    case False
    show ?thesis
    proof (cases "dominates an entry (node_block successor)")
      case True
      then have c: "climb fuel pick fn an entry successor st = Inr st'"
        using res gi lt su False by simp
      have nd: "\<not> \<not> dominates an entry (node_block successor)" using True by simp
      show ?thesis using 3(3) [OF gi nlt su False nd c 3(5) 3(6)] .
    next
      case nd: False
      then have "st' = st" using res gi lt su False by simp
      then show ?thesis by (simp add: refl)
    qed
  qed
qed

lemma climb_extends:
  "climb fuel pick fn an entry domNode st = Inr st' \<Longrightarrow> grapher_extends (fst st) (fst st')"
  by (rule climb_invariant [where R = grapher_extends and fn = fn and entry = entry])
     (auto intro: grapher_extends_refl grapher_extends_trans runOnLoop_extends runOnRegion_extends)

lemma climb_entries:
  assumes "climb fuel pick fn an entry domNode st = Inr st'" and "b \<noteq> entry"
  shows "nodeByEntry (snd (fst st')) b = nodeByEntry (snd (fst st)) b"
proof -
  have "(\<lambda>pg pg'. nodeByEntry (snd pg') b = nodeByEntry (snd pg) b) (fst st) (fst st')"
    by (rule climb_invariant [where R = "\<lambda>pg pg'. nodeByEntry (snd pg') b = nodeByEntry (snd pg) b",
          OF _ _ assms(1)])
       (auto simp: runOnLoop_entries [OF _ assms(2)] runOnRegion_entries [OF _ assms(2)])
  then show ?thesis by simp
qed

lemma visitBlocks_extends:
  "visitBlocks pick fn an blocks st = Inr st' \<Longrightarrow>
   grapher_extends (fst st) (fst st')
   \<and> (\<forall>b. b \<notin> set blocks \<longrightarrow> nodeByEntry (snd (fst st')) b = nodeByEntry (snd (fst st)) b)"
proof (induction blocks arbitrary: st)
  case Nil
  then show ?case by (simp add: grapher_extends_refl)
next
  case (Cons entry rest)
  from Cons(2) obtain blk where b: "pdt_getNode an (Some entry) = Some blk"
    by (cases "pdt_getNode an (Some entry)") simp_all
  let ?c = "climb (climb_fuel fn) pick fn an entry (Some blk)
              (snd (addBasicBlock fn entry (fst st)), snd st)"
  from Cons(2) b obtain st1 where c: "?c = Inr st1"
    by (cases ?c) simp_all
  have v: "visitBlocks pick fn an rest st1 = Inr st'" using Cons(2) b c by simp
  have "grapher_extends (snd (addBasicBlock fn entry (fst st))) (fst st1)"
    using climb_extends [OF c] by simp
  then have 1: "grapher_extends (fst st) (fst st1)"
    using addBasicBlock_extends [of "fst st" fn entry] by (blast intro: grapher_extends_trans)
  have 2: "nodeByEntry (snd (fst st1)) x = nodeByEntry (snd (fst st)) x" if "x \<noteq> entry" for x
    using climb_entries [OF c that] addBasicBlock_entries [OF that, of fn "fst st"] by simp
  from Cons(1) [OF v] have 3: "grapher_extends (fst st1) (fst st')"
    and 4: "\<forall>x. x \<notin> set rest \<longrightarrow> nodeByEntry (snd (fst st')) x = nodeByEntry (snd (fst st1)) x"
    by blast+
  have "grapher_extends (fst st) (fst st')" using 1 3 by (rule grapher_extends_trans)
  moreover have "\<forall>x. x \<notin> set (entry # rest) \<longrightarrow>
      nodeByEntry (snd (fst st')) x = nodeByEntry (snd (fst st)) x"
    using 2 4 by simp
  ultimately show ?case by blast
qed

lemma runOnFunction_extends:
  assumes "runOnFunction pick an fn be = Inr be'"
  shows "grapher_extends (be_pool be, be_grapher be) (be_pool be', be_grapher be')
         \<and> (\<forall>b. b \<notin> set (post_order an) \<longrightarrow>
                nodeByEntry (be_grapher be') b = nodeByEntry (be_grapher be) b)
         \<and> astPerFunction be' = astPerFunction be"
proof (cases "astPerFunction be (fn_id fn) \<noteq> None \<or> fn_blocks fn = []")
  case True
  then have "be' = be" using assms by (auto simp: runOnFunction_def split: if_splits)
  then show ?thesis by (simp add: grapher_extends_refl)
next
  case False
  then obtain st where v: "visitBlocks pick fn an (post_order an)
                   ((be_pool be, be_grapher be), findBackEdgeDestinations fn (getEntryBlock fn)) = Inr st"
    and be': "be' = be\<lparr>be_pool := fst (fst st), be_grapher := snd (fst st)\<rparr>"
    using assms by (auto simp: runOnFunction_def split: sum.splits option.splits)
  show ?thesis using visitBlocks_extends [OF v] be' by simp
qed

lemma reset_backend:
  "be\<lparr>be_pool := empty_pool, astPerFunction := (\<lambda>f. None), be_grapher := new_grapher\<rparr> = blank_backend"
  by (cases be) (simp add: blank_backend_def)

lemma runOnModule_two:
  "runOnModule pick getAnalysis [f, f'] be =
     (case runOnFunction pick (getAnalysis f) f blank_backend of
        Inl e \<Rightarrow> Inl e
      | Inr be1 \<Rightarrow> runOnFunction pick (getAnalysis f') f' be1)"
proof (cases "runOnFunction pick (getAnalysis f) f blank_backend")
  case (Inl e)
  then show ?thesis by (simp add: runOnModule_def reset_backend)
next
  case (Inr be1)
  then show ?thesis
    by (cases "runOnFunction pick (getAnalysis f') f' be1") (simp_all add: runOnModule_def reset_backend)
qed

lemma two_functions_first:
  "(case runOnFunction (\<lambda>tv. 0) (single_block_an first_fn) first_fn blank_backend of
      Inl e \<Rightarrow> False
    | Inr be1 \<Rightarrow>
        nodeByEntry (be_grapher be1) 0 = Some 3
        \<and> getGraphNodeFromEntry (be_grapher be1) (Some 0) = Some (Suc 0)
        \<and> graphNodeByAstNode (be_grapher be1) 3 = Some (Suc 0)
        \<and> nodeStorage (be_grapher be1) =
            [\<lparr>gn_node = 0, gn_entry = 0, gn_exit = Some 0\<rparr>,
             \<lparr>gn_node = 3, gn_entry = 0, gn_exit = None\<rparr>]
        \<and> pool_stmts (be_pool be1) =
            [Sequence [Expression (Value 20), Expression (Value 21)],
             Expression (Value 20), Expression (Value 21),
             Sequence [Expression (Value 20), Expression (Value 21)]])"
  by code_simp

lemma two_functions_second:
  "(case runOnModule (\<lambda>tv. 0) single_block_an [first_fn, second_fn] blank_backend of
      Inl e \<Rightarrow> False
    | Inr be2 \<Rightarrow>
        nodeByEntry (be_grapher be2) 0 = Some 3
        \<and> nodeByEntry (be_grapher be2) 5 = Some 7
        \<and> graphNodeByAstNode (be_grapher be2) 3 = Some (Suc 0)
        \<and> nodeStorage (be_grapher be2) =
            [\<lparr>gn_node = 0, gn_entry = 0, gn_exit = Some 0\<rparr>,
             \<lparr>gn_node = 3, gn_entry = 0, gn_exit = None\<rparr>,
             \<lparr>gn_node = 4, gn_entry = 5, gn_exit = Some 5\<rparr>,
             \<lparr>gn_node = 7, gn_entry = 5, gn_exit = None\<rparr>])"
  by code_simp

lemma second_fn_post_order: "post_order (single_block_an second_fn) = [5]"
  by (simp add: single_block_an_def second_fn_def single_block_def getEntryBlock_def)

text \<open>
  C9, as the code has it. \<open>runOnModule\<close> clears the arena, \<open>astPerFunction\<close> and the
  grapher once, before the first function: whatever the pass object held, the functions
  are structured from the blank one, each from the pass object that the one before it
  has left. \<open>runOnFunction\<close> clears none of them. When it returns,
  \<^item> every address of the arena is still one, and holds the statement it held unless
    that statement has been registered again, for a graph node added since;
  \<^item> every graph node is still in the node storage, in its place;
  \<^item> every block that had an entry in \<open>nodeByEntry\<close> still has one, and the same one
    unless the block is among those that the function's post-order visits;
  \<^item> every entry of \<open>graphNodeByAstNode\<close> is what it was, or is a graph node added
    since;
  \<^item> \<open>astPerFunction\<close> is as it was.

  The analyses are the ones of the function at hand.
\<close>

theorem per_module_state:
  "runOnModule pick getAnalysis m be = runOnFunctions pick getAnalysis m blank_backend
   \<and> runOnFunctions pick getAnalysis (f # rest) be =
       (case runOnFunction pick (getAnalysis f) f be of
          Inl e \<Rightarrow> Inl e
        | Inr be1 \<Rightarrow> runOnFunctions pick getAnalysis rest be1)
   \<and> (runOnFunction pick an fn be = Inr be' \<longrightarrow>
        length (pool_stmts (be_pool be)) \<le> length (pool_stmts (be_pool be'))
        \<and> (\<forall>r < length (pool_stmts (be_pool be)).
              pool_stmts (be_pool be') ! r = pool_stmts (be_pool be) ! r \<or>
              (\<exists>k \<ge> length (nodeStorage (be_grapher be)).
                 graphNodeByAstNode (be_grapher be') r = Some k))
        \<and> (\<exists>added. nodeStorage (be_grapher be') = nodeStorage (be_grapher be) @ added)
        \<and> (\<forall>b. nodeByEntry (be_grapher be) b \<noteq> None \<longrightarrow> nodeByEntry (be_grapher be') b \<noteq> None)
        \<and> (\<forall>b. b \<notin> set (post_order an) \<longrightarrow>
              nodeByEntry (be_grapher be') b = nodeByEntry (be_grapher be) b)
        \<and> (\<forall>s. graphNodeByAstNode (be_grapher be') s = graphNodeByAstNode (be_grapher be) s \<or>
              (\<exists>k \<ge> length (nodeStorage (be_grapher be)).
                 graphNodeByAstNode (be_grapher be') s = Some k))
        \<and> astPerFunction be' = astPerFunction be)"
proof (intro conjI impI)
  show "runOnModule pick getAnalysis m be = runOnFunctions pick getAnalysis m blank_backend"
    by (simp only: runOnModule_def reset_backend)
  show "runOnFunctions pick getAnalysis (f # rest) be =
       (case runOnFunction pick (getAnalysis f) f be of
          Inl e \<Rightarrow> Inl e
        | Inr be1 \<Rightarrow> runOnFunctions pick getAnalysis rest be1)"
    by simp
next
  assume r: "runOnFunction pick an fn be = Inr be'"
  note e = runOnFunction_extends [OF r, unfolded grapher_extends_def fst_conv snd_conv]
  show "length (pool_stmts (be_pool be)) \<le> length (pool_stmts (be_pool be'))"
    using e by blast
  show "\<forall>r < length (pool_stmts (be_pool be)).
              pool_stmts (be_pool be') ! r = pool_stmts (be_pool be) ! r \<or>
              (\<exists>k \<ge> length (nodeStorage (be_grapher be)).
                 graphNodeByAstNode (be_grapher be') r = Some k)"
    using e by blast
  show "\<exists>added. nodeStorage (be_grapher be') = nodeStorage (be_grapher be) @ added"
    using e by blast
  show "\<forall>b. nodeByEntry (be_grapher be) b \<noteq> None \<longrightarrow> nodeByEntry (be_grapher be') b \<noteq> None"
    using e by blast
  show "\<forall>b. b \<notin> set (post_order an) \<longrightarrow>
              nodeByEntry (be_grapher be') b = nodeByEntry (be_grapher be) b"
    using e by blast
  show "\<forall>s. graphNodeByAstNode (be_grapher be') s = graphNodeByAstNode (be_grapher be) s \<or>
              (\<exists>k \<ge> length (nodeStorage (be_grapher be)).
                 graphNodeByAstNode (be_grapher be') s = Some k)"
    using e by blast
  show "astPerFunction be' = astPerFunction be"
    using e by blast
qed

text \<open>
  Two functions of one block each. The second is structured from the pass object the
  first has left; the block of the first function, which the second does not visit,
  resolves to the same statement and the same graph node before and after.
\<close>

theorem per_module_state_witness:
  "runOnFunction (\<lambda>tv. 0) (single_block_an second_fn) second_fn
     (projr (runOnFunction (\<lambda>tv. 0) (single_block_an first_fn) first_fn blank_backend)) =
     Inr (projr (runOnModule (\<lambda>tv. 0) single_block_an [first_fn, second_fn] blank_backend))
   \<and> (0::nat) \<notin> set (post_order (single_block_an second_fn))
   \<and> nodeByEntry (be_grapher
         (projr (runOnFunction (\<lambda>tv. 0) (single_block_an first_fn) first_fn blank_backend))) 0 \<noteq> None
   \<and> nodeByEntry (be_grapher
         (projr (runOnModule (\<lambda>tv. 0) single_block_an [first_fn, second_fn] blank_backend))) 0 =
      nodeByEntry (be_grapher
         (projr (runOnFunction (\<lambda>tv. 0) (single_block_an first_fn) first_fn blank_backend))) 0
   \<and> (3::nat) < length (pool_stmts (be_pool
         (projr (runOnFunction (\<lambda>tv. 0) (single_block_an first_fn) first_fn blank_backend))))
   \<and> pool_stmts (be_pool
         (projr (runOnModule (\<lambda>tv. 0) single_block_an [first_fn, second_fn] blank_backend))) ! 3 =
      Sequence [Expression (Value 20), Expression (Value 21)]
   \<and> graphNodeByAstNode (be_grapher
         (projr (runOnModule (\<lambda>tv. 0) single_block_an [first_fn, second_fn] blank_backend))) 3 =
      Some (Suc 0)
   \<and> (\<exists>added. nodeStorage (be_grapher
         (projr (runOnModule (\<lambda>tv. 0) single_block_an [first_fn, second_fn] blank_backend))) =
        [\<lparr>gn_node = 0, gn_entry = 0, gn_exit = Some 0\<rparr>,
         \<lparr>gn_node = 3, gn_entry = 0, gn_exit = None\<rparr>] @ added)
   \<and> length (nodeStorage (be_grapher
         (projr (runOnModule (\<lambda>tv. 0) single_block_an [first_fn, second_fn] blank_backend)))) = 4"
proof -
  obtain be1 where 1: "runOnFunction (\<lambda>tv. 0) (single_block_an first_fn) first_fn blank_backend = Inr be1"
    using two_functions_first
    by (cases "runOnFunction (\<lambda>tv. 0) (single_block_an first_fn) first_fn blank_backend") auto
  obtain be2 where 2: "runOnModule (\<lambda>tv. 0) single_block_an [first_fn, second_fn] blank_backend = Inr be2"
    using two_functions_second
    by (cases "runOnModule (\<lambda>tv. 0) single_block_an [first_fn, second_fn] blank_backend") auto
  have 3: "runOnFunction (\<lambda>tv. 0) (single_block_an second_fn) second_fn be1 = Inr be2"
    using runOnModule_two [of "\<lambda>tv. 0" single_block_an first_fn second_fn blank_backend] 1 2 by simp
  have f1: "nodeByEntry (be_grapher be1) 0 = Some 3"
    "graphNodeByAstNode (be_grapher be1) 3 = Some (Suc 0)"
    "nodeStorage (be_grapher be1) =
       [\<lparr>gn_node = 0, gn_entry = 0, gn_exit = Some 0\<rparr>, \<lparr>gn_node = 3, gn_entry = 0, gn_exit = None\<rparr>]"
    "pool_stmts (be_pool be1) =
       [Sequence [Expression (Value 20), Expression (Value 21)],
        Expression (Value 20), Expression (Value 21),
        Sequence [Expression (Value 20), Expression (Value 21)]]"
    using two_functions_first 1 by simp_all
  have f2: "graphNodeByAstNode (be_grapher be2) 3 = Some (Suc 0)"
    "length (nodeStorage (be_grapher be2)) = 4"
    using two_functions_second 2 by simp_all
  note t = per_module_state [where pick = "\<lambda>tv. 0" and an = "single_block_an second_fn"
      and fn = second_fn and be = be1 and be' = be2, THEN conjunct2, THEN conjunct2, rule_format, OF 3]
  have p: "(0::nat) \<notin> set (post_order (single_block_an second_fn))"
    by (simp add: second_fn_post_order)
  have a: "nodeByEntry (be_grapher be2) 0 = nodeByEntry (be_grapher be1) 0"
    using t p by blast
  have lt: "(3::nat) < length (pool_stmts (be_pool be1))" by (simp add: f1(4))
  have "pool_stmts (be_pool be2) ! 3 = pool_stmts (be_pool be1) ! 3 \<or>
        (\<exists>k \<ge> length (nodeStorage (be_grapher be1)). graphNodeByAstNode (be_grapher be2) 3 = Some k)"
    using t lt by blast
  then have b: "pool_stmts (be_pool be2) ! 3 = Sequence [Expression (Value 20), Expression (Value 21)]"
    by (simp add: f1 f2)
  have c: "\<exists>added. nodeStorage (be_grapher be2) =
        [\<lparr>gn_node = 0, gn_entry = 0, gn_exit = Some 0\<rparr>,
         \<lparr>gn_node = 3, gn_entry = 0, gn_exit = None\<rparr>] @ added"
    using t f1(3) by metis
  show ?thesis using 1 2 3 p a lt b c f1(1) f2 by simp
qed

text \<open>
  The claim as stated fails on a module of two functions of one block each: the second
  function is structured from the pass object the first one left, in which the block of
  the first function resolves to its region, a graph node and a statement made while
  structuring the first function.
\<close>

theorem per_function_clearing_counterexample:
  "runOnModule (\<lambda>tv. 0) single_block_an [first_fn, second_fn] blank_backend =
     runOnFunction (\<lambda>tv. 0) (single_block_an second_fn) second_fn
       (projr (runOnFunction (\<lambda>tv. 0) (single_block_an first_fn) first_fn blank_backend))
   \<and> nodeByEntry (be_grapher
         (projr (runOnFunction (\<lambda>tv. 0) (single_block_an first_fn) first_fn blank_backend))) 0 =
       Some 3
   \<and> getGraphNodeFromEntry (be_grapher
         (projr (runOnFunction (\<lambda>tv. 0) (single_block_an first_fn) first_fn blank_backend))) (Some 0) =
       Some (Suc 0)
   \<and> nodeStorage (be_grapher
         (projr (runOnFunction (\<lambda>tv. 0) (single_block_an first_fn) first_fn blank_backend))) =
       [\<lparr>gn_node = 0, gn_entry = 0, gn_exit = Some 0\<rparr>,
        \<lparr>gn_node = 3, gn_entry = 0, gn_exit = None\<rparr>]
   \<and> pool_stmts (be_pool
         (projr (runOnFunction (\<lambda>tv. 0) (single_block_an first_fn) first_fn blank_backend))) =
       [Sequence [Expression (Value 20), Expression (Value 21)],
        Expression (Value 20), Expression (Value 21),
        Sequence [Expression (Value 20), Expression (Value 21)]]
   \<and> nodeByEntry (be_grapher
         (projr (runOnModule (\<lambda>tv. 0) single_block_an [first_fn, second_fn] blank_backend))) 0 =
       Some 3"
proof -
  obtain be1 where 1: "runOnFunction (\<lambda>tv. 0) (single_block_an first_fn) first_fn blank_backend = Inr be1"
    using two_functions_first
    by (cases "runOnFunction (\<lambda>tv. 0) (single_block_an first_fn) first_fn blank_backend") auto
  obtain be2 where 2: "runOnModule (\<lambda>tv. 0) single_block_an [first_fn, second_fn] blank_backend = Inr be2"
    using two_functions_second
    by (cases "runOnModule (\<lambda>tv. 0) single_block_an [first_fn, second_fn] blank_backend") auto
  have 3: "runOnModule (\<lambda>tv. 0) single_block_an [first_fn, second_fn] blank_backend =
     runOnFunction (\<lambda>tv. 0) (single_block_an second_fn) second_fn be1"
    using runOnModule_two [of "\<lambda>tv. 0" single_block_an first_fn second_fn blank_backend] 1 by simp
  show ?thesis using two_functions_first two_functions_second 1 2 3 by simp
qed

end
